theory Spec2Isabelle
  imports Main
begin

section \<open>JavaScript errors\<close>

text \<open>
  An error object is what the source reads of it: its \<open>name\<close> (tested by
  \<open>error.name === 'AbortError'\<close>) and its \<open>message\<close>.
\<close>

record jserror =
  err_name :: string
  err_message :: string

definition DOMException :: "string \<Rightarrow> string \<Rightarrow> jserror" where
  "DOMException msg nm = \<lparr>err_name = nm, err_message = msg\<rparr>"

definition Error :: "string \<Rightarrow> jserror" where
  "Error msg = \<lparr>err_name = ''Error'', err_message = msg\<rparr>"

definition TypeError :: "string \<Rightarrow> jserror" where
  "TypeError msg = \<lparr>err_name = ''TypeError'', err_message = msg\<rparr>"

section \<open>WorkerMessenger\<close>

text \<open>
  What a messenger does to the outside world is recorded in a trace, in the order the
  source does it. A request's \<open>[resolve, reject]\<close> pair, stored in \<open>_pending\<close> under the
  request id \<open>k\<close>, settles the promise that \<open>requestResponse\<close> returned when it drew
  \<open>k\<close>: \<open>Resolve k v\<close> is the call \<open>resolver[0](v)\<close>, \<open>Reject k e\<close> the call
  \<open>resolver[1](e)\<close>. A worker object is named by a handle; \<open>NewWorker h\<close> is
  \<open>new Worker(url)\<close>, \<open>Terminate h\<close> is \<open>worker.terminate()\<close>, and
  \<open>PostMessage h k q\<close> is \<open>worker.postMessage(message)\<close> with \<open>message.id = k\<close> and
  the remaining fields \<open>q\<close>.
\<close>

datatype ('q, 'r) effect =
    Resolve nat "'r option"
  | Reject nat jserror
  | NewWorker nat
  | Terminate nat
  | PostMessage nat nat 'q
  | ConsoleLog string

text \<open>
  \<open>pending\<close> holds the keys of the object \<open>_pending\<close>. Ids are drawn in increasing
  order, so the order of insertion is the ascending order in which \<open>Object.keys\<close>
  lists integer keys. \<open>spawned\<close> counts the workers this messenger has created; it
  supplies the handle of the next \<open>new Worker\<close>. \<open>worker = None\<close> is \<open>_worker === null\<close>.
\<close>

record ('q, 'r) messenger =
  requestId :: nat
  pending :: "nat list"
  worker :: "nat option"
  spawned :: nat
  trace :: "('q, 'r) effect list"

definition new_messenger :: "('q, 'r) messenger" where
  "new_messenger = \<lparr>requestId = 0, pending = [], worker = None, spawned = 0, trace = []\<rparr>"

definition emit :: "('q, 'r) effect \<Rightarrow> ('q, 'r, 'z) messenger_scheme \<Rightarrow> ('q, 'r, 'z) messenger_scheme" where
  "emit e c = c\<lparr>trace := trace c @ [e]\<rparr>"

definition startWorker :: "('q, 'r, 'z) messenger_scheme \<Rightarrow> ('q, 'r, 'z) messenger_scheme" where
  "startWorker c = emit (NewWorker (spawned c)) (c\<lparr>worker := Some (spawned c), spawned := Suc (spawned c)\<rparr>)"

text \<open>
  \<open>_fulfillPending(id, result, error)\<close>. The argument \<open>error\<close> is tested for truthiness:
  \<open>None\<close> stands for a falsy value, \<open>Some e\<close> for an error object.
\<close>

definition fulfillPending ::
  "nat \<Rightarrow> 'r option \<Rightarrow> jserror option \<Rightarrow> ('q, 'r, 'z) messenger_scheme \<Rightarrow> ('q, 'r, 'z) messenger_scheme" where
  "fulfillPending k res err c =
     (if k \<notin> set (pending c) then emit (ConsoleLog ''No resolver for'') c
      else
        let c1 = c\<lparr>pending := removeAll k (pending c)\<rparr> in
        (case err of
           Some e \<Rightarrow> emit (Reject k e) c1
         | None \<Rightarrow> emit (Resolve k res) c1))"

definition AbortErr :: jserror where
  "AbortErr = DOMException ''AbortError'' ''AbortError''"

definition abortPending :: "('q, 'r, 'z) messenger_scheme \<Rightarrow> ('q, 'r, 'z) messenger_scheme" where
  "abortPending c =
     fold (\<lambda>k. fulfillPending k None (Some AbortErr)) (pending c) c"

definition release :: "('q, 'r, 'z) messenger_scheme \<Rightarrow> ('q, 'r, 'z) messenger_scheme" where
  "release c =
     (let c1 = abortPending c in
      case worker c1 of
        Some w \<Rightarrow> (emit (Terminate w) c1)\<lparr>worker := None\<rparr>
      | None \<Rightarrow> c1)"

text \<open>
  \<open>requestResponse(message)\<close> returns the id it drew, which names the promise it
  returns, and the new state. \<open>pending\<close> lists the keys of \<open>this._pending\<close> in the order
  of their insertion: assigning to a key that is present keeps its place.
\<close>

definition requestResponse ::
  "'q \<Rightarrow> ('q, 'r, 'z) messenger_scheme \<Rightarrow> nat \<times> ('q, 'r, 'z) messenger_scheme" where
  "requestResponse message c =
     (let k = Suc (requestId c);
          c1 = c\<lparr>requestId := k,
                 pending := (if k \<in> set (pending c) then pending c else pending c @ [k])\<rparr>;
          c2 = (if worker c1 = None then startWorker c1 else c1)
      in (k, (case worker c2 of
                Some w \<Rightarrow> emit (PostMessage w k message) c2
              | None \<Rightarrow> c2)))"

definition abort :: "('q, 'r, 'z) messenger_scheme \<Rightarrow> ('q, 'r, 'z) messenger_scheme" where
  "abort c =
     (if pending c = [] then c
      else
        let c1 = abortPending c;
            c2 = (case worker c1 of Some w \<Rightarrow> emit (Terminate w) c1 | None \<Rightarrow> c1)
        in startWorker c2)"

text \<open>
  The data of an inbound message event. \<open>msg_id = None\<close> is a message without an id;
  \<open>msg_result = None\<close> and \<open>msg_error = None\<close> are absent fields.
\<close>

record 'r message_data =
  msg_id :: "nat option"
  msg_result :: "'r option"
  msg_error :: "string option"

text \<open>
  \<open>event.data.error && new Error(event.data.error)\<close>: an absent error and the empty
  string are both falsy, and the falsy value is what is passed on.
\<close>

definition error_of :: "string option \<Rightarrow> jserror option" where
  "error_of e = (case e of None \<Rightarrow> None | Some s \<Rightarrow> if s = [] then None else Some (Error s))"

definition onMessage :: "'r message_data \<Rightarrow> ('q, 'r, 'z) messenger_scheme \<Rightarrow> ('q, 'r, 'z) messenger_scheme" where
  "onMessage d c =
     (case msg_id d of
        None \<Rightarrow> emit (ConsoleLog ''Unexpected message'') c
      | Some k \<Rightarrow>
          if k = 0 then emit (ConsoleLog ''Unexpected message'') c
          else fulfillPending k (msg_result d) (error_of (msg_error d)) c)"

text \<open>Two messenger states used as concrete inputs below.\<close>

definition two_pending :: "(string, nat) messenger" where
  "two_pending = \<lparr>requestId = 2, pending = [1, 2], worker = Some 0, spawned = 1,
      trace = [NewWorker 0, PostMessage 0 1 ''a'', PostMessage 0 2 ''b'']\<rparr>"

definition seven_pending :: "(string, nat) messenger" where
  "seven_pending = \<lparr>requestId = 8, pending = [6, 7, 8], worker = Some 0, spawned = 1, trace = []\<rparr>"

section \<open>ResultsCache\<close>

text \<open>
  A JavaScript array is a list of slots; \<open>None\<close> is a hole (reads as \<open>undefined\<close>).
  Reading past the end gives \<open>undefined\<close>; writing past the end extends the array,
  leaving holes in between.
\<close>

definition js_get :: "'a option list \<Rightarrow> nat \<Rightarrow> 'a option" where
  "js_get xs i = (if i < length xs then xs ! i else None)"

definition js_set :: "'a option list \<Rightarrow> nat \<Rightarrow> 'a \<Rightarrow> 'a option list" where
  "js_set xs i v =
     (if i < length xs then xs[i := Some v]
      else xs @ replicate (i - length xs) None @ [Some v])"

text \<open>\<open>Array.prototype.indexOf\<close>: the first index holding the value; \<open>None\<close> is \<open>-1\<close>.\<close>

fun indexOf :: "'a option list \<Rightarrow> 'a \<Rightarrow> nat option" where
  "indexOf [] v = None"
| "indexOf (x # xs) v = (if x = Some v then Some 0 else map_option Suc (indexOf xs v))"

text \<open>
  \<open>index = None\<close> is the value \<open>NaN\<close>, which \<open>(this._index + 1) % this._size\<close> yields
  when \<open>_size\<close> is 0 and which every later increment keeps. An array indexed with \<open>NaN\<close>
  reads and writes its property of that name, which is no slot: \<open>indexOf\<close> does not see
  it and the length does not change. \<open>nan_fingerprint\<close> and \<open>nan_item\<close> are that property
  of \<open>_fingerprints\<close> and of \<open>_items\<close>; \<open>None\<close> is \<open>undefined\<close>.
\<close>

record ('f, 'a) results_cache =
  cache_size :: nat
  fingerprints :: "'f option list"
  items :: "'a option list"
  index :: "nat option"
  nan_fingerprint :: "'f option"
  nan_item :: "'a option"

text \<open>\<open>purge\<close> makes two new arrays, so the properties named \<open>NaN\<close> are gone with the old ones.\<close>

definition purge :: "('f, 'a) results_cache \<Rightarrow> ('f, 'a) results_cache" where
  "purge c = c\<lparr>fingerprints := [], items := [], index := Some 0,
               nan_fingerprint := None, nan_item := None\<rparr>"

definition new_cache :: "nat \<Rightarrow> ('f, 'a) results_cache" where
  "new_cache n =
     purge \<lparr>cache_size = n, fingerprints = [], items = [], index = Some 0,
            nan_fingerprint = None, nan_item = None\<rparr>"

text \<open>
  \<open>add\<close> returns, next to the new cache, the old item on which it has called
  \<open>release()\<close>, if there was one in the slot (or, with the cursor \<open>NaN\<close>, under that
  property).
\<close>

definition add :: "'f \<Rightarrow> 'a \<Rightarrow> ('f, 'a) results_cache \<Rightarrow> 'a option \<times> ('f, 'a) results_cache" where
  "add fingerprint svgFile c =
     (case index c of
        None \<Rightarrow>
          (nan_item c, c\<lparr>nan_fingerprint := Some fingerprint, nan_item := Some svgFile\<rparr>)
      | Some i \<Rightarrow>
          (js_get (items c) i,
           c\<lparr>fingerprints := js_set (fingerprints c) i fingerprint,
             items := js_set (items c) i svgFile,
             index := (if cache_size c = 0 then None else Some (Suc i mod cache_size c))\<rparr>))"

text \<open>
  \<open>match\<close>: \<open>indexOf\<close> gives a slot or \<open>-1\<close>, and the array has no property named \<open>-1\<close>.
\<close>

definition match :: "'f \<Rightarrow> ('f, 'a) results_cache \<Rightarrow> 'a option" where
  "match fingerprint c =
     (case indexOf (fingerprints c) fingerprint of
        None \<Rightarrow> None
      | Some i \<Rightarrow> js_get (items c) i)"

text \<open>
  A sequence of \<open>add\<close> calls; the first component collects, in order, the items on
  which \<open>release()\<close> has been called.
\<close>

fun add_all ::
  "('f \<times> 'a) list \<Rightarrow> 'a list \<times> ('f, 'a) results_cache \<Rightarrow> 'a list \<times> ('f, 'a) results_cache" where
  "add_all [] s = s"
| "add_all ((fingerprint, svgFile) # ps) (released, c) =
     (case add fingerprint svgFile c of
        (old, c') \<Rightarrow> add_all ps (released @ (case old of None \<Rightarrow> [] | Some x \<Rightarrow> [x]), c'))"

section \<open>Settings.getSettings\<close>

text \<open>
  What \<open>getSettings\<close> reads of an input element: its \<open>name\<close>, its \<open>type\<close> attribute,
  whether it is \<open>checked\<close> and its \<open>value\<close> string.
\<close>

record inputEl =
  name :: string
  type :: string
  checked :: bool
  val :: string

text \<open>A value of the settings object: a boolean (of a checkbox) or a value string.\<close>

datatype setting = Flag bool | Str string

text \<open>
  The settings object \<open>output\<close>: its named options, the nested \<open>plugins\<close> object and
  the \<open>fingerprint\<close>.
\<close>

record settings =
  options :: "string \<rightharpoonup> setting"
  plugins :: "string \<rightharpoonup> bool"
  fingerprint :: string

text \<open>\<open>Array.prototype.join(',')\<close> on the strings of the elements.\<close>

fun join :: "string list \<Rightarrow> string" where
  "join [] = []"
| "join [x] = x"
| "join (x # y # ys) = x @ '','' @ join (y # ys)"

text \<open>\<open>Number(inputEl.checked)\<close> as \<open>join\<close> prints it.\<close>

definition Number :: "bool \<Rightarrow> string" where
  "Number b = (if b then ''1'' else ''0'')"

text \<open>
  The entry pushed onto \<open>fingerprint\<close> for a global input, and the entries pushed by
  the loop over the global inputs.
\<close>

definition entry :: "inputEl \<Rightarrow> string" where
  "entry inputEl =
     (if type inputEl = ''checkbox'' then Number (checked inputEl)
      else ''|'' @ val inputEl @ ''|'')"

fun global_entries :: "inputEl list \<Rightarrow> string list" where
  "global_entries [] = []"
| "global_entries (inputEl # rest) =
     (if name inputEl \<noteq> ''gzip'' \<and> name inputEl \<noteq> ''original''
      then entry inputEl # global_entries rest
      else global_entries rest)"

definition stored :: "inputEl \<Rightarrow> setting" where
  "stored inputEl = (if type inputEl = ''checkbox'' then Flag (checked inputEl) else Str (val inputEl))"

text \<open>The assignments \<open>output[inputEl.name] = ...\<close>, in the order of the loop.\<close>

fun global_options :: "inputEl list \<Rightarrow> (string \<rightharpoonup> setting) \<Rightarrow> (string \<rightharpoonup> setting)" where
  "global_options [] out = out"
| "global_options (inputEl # rest) out = global_options rest (out(name inputEl \<mapsto> stored inputEl))"

fun plugin_options :: "inputEl list \<Rightarrow> (string \<rightharpoonup> bool) \<Rightarrow> (string \<rightharpoonup> bool)" where
  "plugin_options [] out = out"
| "plugin_options (inputEl # rest) out = plugin_options rest (out(name inputEl \<mapsto> checked inputEl))"

definition getSettings :: "inputEl list \<Rightarrow> inputEl list \<Rightarrow> settings" where
  "getSettings globalInputs pluginInputs =
     \<lparr>options = global_options globalInputs Map.empty,
      plugins = plugin_options pluginInputs Map.empty,
      fingerprint = join (global_entries globalInputs @ map (\<lambda>inputEl. Number (checked inputEl)) pluginInputs)\<rparr>"

text \<open>Truthiness of an option of the settings object, as in \<open>if (settings.original)\<close>.\<close>

definition truthy :: "setting option \<Rightarrow> bool" where
  "truthy v = (case v of None \<Rightarrow> False | Some (Flag b) \<Rightarrow> b | Some (Str s) \<Rightarrow> s \<noteq> [])"

text \<open>
  The inputs of the settings panel are checkboxes and range sliders, the two types that
  \<open>setSettings\<close> and \<open>_onReset\<close> set. The browser keeps the \<open>value\<close> of a range input a
  valid floating-point number: digits with an optional sign, fraction and exponent;
  \<open>number_string\<close> says that a value is made of these characters.
\<close>

definition number_string :: "string \<Rightarrow> bool" where
  "number_string v \<longleftrightarrow> v \<noteq> [] \<and> set v \<subseteq> set ''0123456789.-+eE''"

definition page_input :: "inputEl \<Rightarrow> bool" where
  "page_input inputEl \<longleftrightarrow>
     type inputEl = ''checkbox'' \<or> type inputEl = ''range'' \<and> number_string (val inputEl)"

text \<open>Input states used as concrete inputs below.\<close>

definition page_inputs :: "bool \<Rightarrow> bool \<Rightarrow> bool \<Rightarrow> string \<Rightarrow> inputEl list" where
  "page_inputs original gzip pretty precision =
     [\<lparr>name = ''original'', type = ''checkbox'', checked = original, val = ''on''\<rparr>,
      \<lparr>name = ''gzip'', type = ''checkbox'', checked = gzip, val = ''on''\<rparr>,
      \<lparr>name = ''pretty'', type = ''checkbox'', checked = pretty, val = ''on''\<rparr>,
      \<lparr>name = ''floatPrecision'', type = ''range'', checked = False, val = precision\<rparr>]"

definition plugin_inputs :: "bool \<Rightarrow> bool \<Rightarrow> inputEl list" where
  "plugin_inputs a b =
     [\<lparr>name = ''removeDoctype'', type = ''checkbox'', checked = a, val = ''on''\<rparr>,
      \<lparr>name = ''removeComments'', type = ''checkbox'', checked = b, val = ''on''\<rparr>]"

section \<open>SvgFile\<close>

text \<open>
  \<open>compressedSize\<close> is the field \<open>_compressedSize\<close>: \<open>None\<close> is \<open>null\<close>, and \<open>Some k\<close> is
  the promise \<open>gzip.compress(this.text).then((response) => response.byteLength)\<close> built
  on the gzip request \<open>k\<close>. \<open>url\<close> is the field \<open>_url\<close>: \<open>None\<close> is \<open>null\<close>, \<open>Some h\<close> the
  object URL \<open>h\<close>. A text is the list of its code units, so that \<open>text.length\<close> is
  \<open>length\<close>.
\<close>

record svgFile =
  svg_text :: string
  compressedSize :: "nat option"
  url :: "nat option"
  width :: nat
  height :: nat

definition new_SvgFile :: "string \<Rightarrow> nat \<Rightarrow> nat \<Rightarrow> svgFile" where
  "new_SvgFile text w h = \<lparr>svg_text = text, compressedSize = None, url = None, width = w, height = h\<rparr>"

text \<open>
  The browser's object URLs: \<open>made\<close> counts the URLs created and supplies the next one;
  \<open>calls\<close> records the calls of \<open>URL.createObjectURL\<close> and \<open>URL.revokeObjectURL\<close>.
\<close>

datatype url_call = CreateObjectURL nat string | RevokeObjectURL nat

record url_registry =
  made :: nat
  calls :: "url_call list"

text \<open>The getter \<open>url\<close>: the URL, the file object after the call, the registry.\<close>

definition get_url :: "svgFile \<Rightarrow> url_registry \<Rightarrow> nat \<times> svgFile \<times> url_registry" where
  "get_url f u =
     (case url f of
        None \<Rightarrow>
          (made u, f\<lparr>url := Some (made u)\<rparr>,
           u\<lparr>made := Suc (made u), calls := calls u @ [CreateObjectURL (made u) (svg_text f)]\<rparr>)
      | Some h \<Rightarrow> (h, f, u))"

text \<open>\<open>SvgFile.release()\<close> writes no field of the file, so only the registry is returned.\<close>

definition svgFile_release :: "svgFile \<Rightarrow> url_registry \<Rightarrow> url_registry" where
  "svgFile_release f u =
     (case url f of
        None \<Rightarrow> u
      | Some h \<Rightarrow> u\<lparr>calls := calls u @ [RevokeObjectURL h]\<rparr>)"


type_synonym gzip = "(string, nat list) messenger"







fun is_post :: "('q, 'r) effect \<Rightarrow> bool" where
  "is_post (PostMessage w k q) = True"
| "is_post _ = False"

definition posts :: "('q, 'r) effect list \<Rightarrow> nat" where
  "posts tr = length (filter is_post tr)"


text \<open>A registry and a messenger used as concrete inputs below.\<close>

definition no_urls :: url_registry where
  "no_urls = \<lparr>made = 0, calls = []\<rparr>"


section \<open>Svgo\<close>

text \<open>
  The requests of the messenger \<open>svgo\<close> and the result its worker answers with:
  \<open>{data, dimensions: {width, height}}\<close> for \<open>process\<close>, and \<open>{width, height}\<close> (no use
  is made of \<open>data\<close>) for \<open>wrapOriginal\<close>.
\<close>

datatype request = Process settings string | WrapOriginal string

record response =
  data :: string
  res_width :: nat
  res_height :: nat

text \<open>
  \<open>currentJob\<close> is the field \<open>_currentJob\<close>: \<open>None\<close> is the promise it starts with,
  already resolved, and \<open>Some k\<close> is the job that awaits request \<open>k\<close>.
\<close>

record svgo = "(request, response) messenger" +
  currentJob :: "nat option"

definition new_svgo :: svgo where
  "new_svgo = \<lparr>requestId = 0, pending = [], worker = None, spawned = 0, trace = [], currentJob = None\<rparr>"

text \<open>
  How a promise was settled: \<open>Inl e\<close> is a rejection with \<open>e\<close>, \<open>Inr v\<close> a fulfilment
  with the message's result (\<open>None\<close> is \<open>undefined\<close>).
\<close>

type_synonym outcome = "jserror + response option"

text \<open>
  \<open>wrapOriginal\<close> up to its \<open>await\<close>, and what its promise settles with once the request
  has settled: destructuring \<open>undefined\<close> throws a TypeError.
\<close>

definition wrapOriginal :: "string \<Rightarrow> svgo \<Rightarrow> nat \<times> svgo" where
  "wrapOriginal svgText s = requestResponse (WrapOriginal svgText) s"

definition wrapOriginal_result :: "string \<Rightarrow> outcome \<Rightarrow> jserror + svgFile" where
  "wrapOriginal_result svgText out =
     (case out of
        Inl e \<Rightarrow> Inl e
      | Inr None \<Rightarrow> Inl (TypeError ''Cannot destructure property of undefined'')
      | Inr (Some r) \<Rightarrow> Inr (new_SvgFile svgText (res_width r) (res_height r)))"

text \<open>
  \<open>process\<close>: \<open>this.abort()\<close>, then the job is chained onto \<open>_currentJob\<close> and runs once
  the previous job has settled. A job settles with the request it awaits, and after
  \<open>abort()\<close> no request is pending; so the previous job has settled, and the chained
  function runs in the microtasks of the same task, in which nothing else calls the
  messenger (a task calls \<open>process\<close> at most once). The model sends the request at once.
  \<open>process\<close> returns the request whose settlement settles the job.
\<close>

definition process :: "string \<Rightarrow> settings \<Rightarrow> svgo \<Rightarrow> nat \<times> svgo" where
  "process svgText settings s =
     (case requestResponse (Process settings svgText) (abort s) of
        (k, s') \<Rightarrow> (k, s'\<lparr>currentJob := Some k\<rparr>))"

definition process_result :: "outcome \<Rightarrow> jserror + svgFile" where
  "process_result out =
     (case out of
        Inl e \<Rightarrow> Inl e
      | Inr None \<Rightarrow> Inl (TypeError ''Cannot destructure property of undefined'')
      | Inr (Some r) \<Rightarrow> Inr (new_SvgFile (data r) (res_width r) (res_height r)))"

section \<open>MainController\<close>

text \<open>
  The two clean-up functions work on the document object model and are parameters
  here; \<open>Inl e\<close> is the exception they throw (on a text without an \<open>svg\<close> element).
\<close>

record dom =
  removeUnusedTextCode :: "string \<Rightarrow> jserror + string"
  removeUnusualAttributes :: "string \<Rightarrow> jserror + string"

text \<open>
  The calls the controller makes on the user interface and on cached files, as a log.
  \<open>UpdateForFile f c g\<close> is \<open>_updateForFile(f, {compareToFile: c, compress: g})\<close>,
  \<open>ReleaseCalled f\<close> is \<open>release()\<close> called by the cache on \<open>f\<close>, \<open>ResetOutput\<close> stands
  for the calls that end \<open>_onInputChange\<close> (\<open>_outputUi.reset()\<close> to \<open>_mainMenuUi.hide()\<close>).
\<close>

datatype ui_call =
    UpdateForFile "svgFile option" "svgFile option" bool
  | Working
  | Done
  | HandleError string
  | StopSpinner
  | ResetOutput
  | ReleaseCalled svgFile

text \<open>
  An activation of an \<open>async\<close> method that is suspended at an \<open>await\<close>:
  \<open>Pass1 j s\<close> is \<open>_compressSvg(s)\<close> with \<open>thisJobId = j\<close> at the first
  \<open>await svgo.process\<close>, \<open>Pass2 j s\<close> the same at the second one, and \<open>Load d s\<close> is
  \<open>_onInputChange\<close> with the data \<open>d\<close> and the settings \<open>s\<close> it read, at
  \<open>await svgo.wrapOriginal(data)\<close>.
\<close>

datatype activation = Pass1 nat settings | Pass2 nat settings | Load string settings

text \<open>
  The controller's state. \<open>awaiting\<close> lists the suspended activations, each with the
  request whose settlement resumes it.
\<close>

record controller =
  svgo :: svgo
  inputItem :: "svgFile option"
  cache :: "(string, svgFile) results_cache"
  latestCompressJobId :: nat
  awaiting :: "(nat \<times> activation) list"
  ui :: "ui_call list"

definition new_controller :: controller where
  "new_controller =
     \<lparr>svgo = new_svgo, inputItem = None, cache = new_cache 10, latestCompressJobId = 0,
      awaiting = [], ui = []\<rparr>"

definition call_ui :: "ui_call \<Rightarrow> controller \<Rightarrow> controller" where
  "call_ui c st = st\<lparr>ui := ui st @ [c]\<rparr>"

text \<open>
  The text handed to \<open>svgo.process\<close>: \<open>removeUnusedTextCode\<close> if \<open>settings.remUnusedTextCode\<close>,
  then \<open>removeUnusualAttributes\<close> if \<open>settings.remUnusualAttributes\<close>. The source applies
  this to the input's text before the first pass and to the first result's text before
  the second.
\<close>

definition cleanup :: "dom \<Rightarrow> settings \<Rightarrow> string \<Rightarrow> jserror + string" where
  "cleanup env settings svgText =
     (case (if truthy (options settings ''remUnusedTextCode'')
            then removeUnusedTextCode env svgText else Inr svgText) of
        Inl e \<Rightarrow> Inl e
      | Inr t \<Rightarrow>
          if truthy (options settings ''remUnusualAttributes'')
          then removeUnusualAttributes env t else Inr t)"

definition cleans :: "settings \<Rightarrow> bool" where
  "cleans settings \<longleftrightarrow>
     truthy (options settings ''remUnusedTextCode'') \<or> truthy (options settings ''remUnusualAttributes'')"

text \<open>The \<open>catch\<close> block of \<open>_compressSvg\<close>, followed by its \<open>finally\<close> block.\<close>

definition compressSvg_catch :: "jserror \<Rightarrow> controller \<Rightarrow> controller" where
  "compressSvg_catch error st =
     (if err_name error = ''AbortError'' then call_ui Done st
      else call_ui Done (call_ui (HandleError (''Minifying error: '' @ err_message error)) st))"

text \<open>
  The end of the \<open>try\<close> block: \<open>_updateForFile\<close>, \<open>_cache.add\<close> (which calls
  \<open>release()\<close> on the item it overwrites), and the \<open>finally\<close> block.
\<close>

definition compressSvg_finish :: "settings \<Rightarrow> svgFile \<Rightarrow> controller \<Rightarrow> controller" where
  "compressSvg_finish settings resultFile st =
     (let st1 = call_ui (UpdateForFile (Some resultFile) (inputItem st)
                           (truthy (options settings ''gzip''))) st
      in case add (fingerprint settings) resultFile (cache st1) of
           (old, c) \<Rightarrow>
             call_ui Done
               ((case old of None \<Rightarrow> st1 | Some f \<Rightarrow> call_ui (ReleaseCalled f) st1)\<lparr>cache := c\<rparr>))"

text \<open>\<open>_compressSvg\<close> from its first line to \<open>await svgo.abort()\<close>.\<close>

definition compressSvg_call :: "nat \<Rightarrow> controller \<Rightarrow> controller" where
  "compressSvg_call thisJobId st = st\<lparr>latestCompressJobId := thisJobId, svgo := abort (svgo st)\<rparr>"

text \<open>The \<open>try\<close> block up to the first \<open>await svgo.process\<close>.\<close>

definition compressSvg_try :: "dom \<Rightarrow> settings \<Rightarrow> nat \<Rightarrow> controller \<Rightarrow> controller" where
  "compressSvg_try env settings thisJobId st =
     (case inputItem st of
        None \<Rightarrow> compressSvg_catch (TypeError ''Cannot read properties of null'') st
      | Some input \<Rightarrow>
          (case cleanup env settings (svg_text input) of
             Inl e \<Rightarrow> compressSvg_catch e st
           | Inr svgText \<Rightarrow>
               (case process svgText settings (svgo st) of
                  (k, s) \<Rightarrow> st\<lparr>svgo := s, awaiting := awaiting st @ [(k, Pass1 thisJobId settings)]\<rparr>)))"

text \<open>\<open>_compressSvg\<close> from the comparison of the job ids to the first \<open>await svgo.process\<close>.\<close>

definition compressSvg_resume :: "dom \<Rightarrow> settings \<Rightarrow> nat \<Rightarrow> controller \<Rightarrow> controller" where
  "compressSvg_resume env settings thisJobId st =
     (if thisJobId \<noteq> latestCompressJobId st then st
      else if truthy (options settings ''original'')
      then call_ui (UpdateForFile (inputItem st) None (truthy (options settings ''gzip''))) st
      else
        (case match (fingerprint settings) (cache st) of
           Some cacheMatch \<Rightarrow>
             call_ui (UpdateForFile (Some cacheMatch) (inputItem st)
                        (truthy (options settings ''gzip''))) st
         | None \<Rightarrow> compressSvg_try env settings thisJobId (call_ui Working st)))"

text \<open>\<open>_compressSvg\<close> after the first \<open>await svgo.process\<close> has given \<open>resultFile0\<close>.\<close>

definition compressSvg_pass1 :: "dom \<Rightarrow> settings \<Rightarrow> nat \<Rightarrow> svgFile \<Rightarrow> controller \<Rightarrow> controller" where
  "compressSvg_pass1 env settings thisJobId resultFile0 st =
     (if cleans settings then
        (case cleanup env settings (svg_text resultFile0) of
           Inl e \<Rightarrow> compressSvg_catch e st
         | Inr svgText \<Rightarrow>
             (case process svgText settings (svgo st) of
                (k, s) \<Rightarrow> st\<lparr>svgo := s, awaiting := awaiting st @ [(k, Pass2 thisJobId settings)]\<rparr>))
      else compressSvg_finish settings resultFile0 st)"

text \<open>
  \<open>_onInputChange\<close> up to its \<open>await\<close>, its \<open>catch\<close> block, and its remainder once
  \<open>wrapOriginal\<close> has given the file: the call \<open>_compressSvg(settings)\<close> runs to that
  method's first \<open>await\<close>, \<open>_onInputChange\<close> runs to its end, and then \<open>_compressSvg\<close>
  resumes. \<open>random\<close> is what \<open>Math.random()\<close> returns.
\<close>

definition onInputChange :: "string \<Rightarrow> settings \<Rightarrow> controller \<Rightarrow> controller" where
  "onInputChange d settings st =
     (case wrapOriginal d (svgo st) of
        (k, s) \<Rightarrow> st\<lparr>svgo := s, awaiting := awaiting st @ [(k, Load d settings)]\<rparr>)"

definition onInputChange_catch :: "jserror \<Rightarrow> controller \<Rightarrow> controller" where
  "onInputChange_catch error st =
     call_ui (HandleError (''Load failed: '' @ err_message error)) (call_ui StopSpinner st)"

definition onInputChange_loaded :: "dom \<Rightarrow> nat \<Rightarrow> settings \<Rightarrow> svgFile \<Rightarrow> controller \<Rightarrow> controller" where
  "onInputChange_loaded env random settings file st =
     compressSvg_resume env settings random
       (call_ui ResetOutput
          (compressSvg_call random (st\<lparr>inputItem := Some file, cache := purge (cache st)\<rparr>)))"

text \<open>
  \<open>_onSettingsChange\<close>: \<open>_compressSvg(settings)\<close>, to its first \<open>await svgo.process\<close>. The
  settings are those that \<open>getSettings()\<close> read; \<open>_saveSettings\<close> writes them to the
  persistent store, which nothing here reads, and is left aside.
\<close>

definition onSettingsChange :: "dom \<Rightarrow> settings \<Rightarrow> nat \<Rightarrow> controller \<Rightarrow> controller" where
  "onSettingsChange env settings random st =
     compressSvg_resume env settings random (compressSvg_call random st)"

text \<open>A suspended activation continues with the outcome of the request it awaited.\<close>

fun continue :: "dom \<Rightarrow> nat \<Rightarrow> activation \<Rightarrow> outcome \<Rightarrow> controller \<Rightarrow> controller" where
  "continue env random (Pass1 j settings) out st =
     (case process_result out of
        Inl e \<Rightarrow> compressSvg_catch e st
      | Inr resultFile0 \<Rightarrow> compressSvg_pass1 env settings j resultFile0 st)"
| "continue env random (Pass2 j settings) out st =
     (case process_result out of
        Inl e \<Rightarrow> compressSvg_catch e st
      | Inr resultFile \<Rightarrow> compressSvg_finish settings resultFile st)"
| "continue env random (Load d settings) out st =
     (case wrapOriginal_result d out of
        Inl e \<Rightarrow> onInputChange_catch e st
      | Inr file \<Rightarrow> onInputChange_loaded env random settings file st)"

text \<open>
  The settlements recorded in a piece of trace, and the resumption of the activation
  that awaits a settled request.
\<close>

fun settlements :: "(request, response) effect list \<Rightarrow> (nat \<times> outcome) list" where
  "settlements [] = []"
| "settlements (Resolve k v # tr) = (k, Inr v) # settlements tr"
| "settlements (Reject k e # tr) = (k, Inl e) # settlements tr"
| "settlements (_ # tr) = settlements tr"

definition resume :: "dom \<Rightarrow> nat \<Rightarrow> nat \<times> outcome \<Rightarrow> controller \<Rightarrow> controller" where
  "resume env random ko st =
     (case map_of (awaiting st) (fst ko) of
        None \<Rightarrow> st
      | Some a \<Rightarrow>
          continue env random a (snd ko)
            (st\<lparr>awaiting := filter (\<lambda>p. fst p \<noteq> fst ko) (awaiting st)\<rparr>))"

text \<open>
  A task of the event loop: a settings change, an input load, or a message from the
  worker of \<open>svgo\<close>; \<open>random\<close> is what \<open>Math.random()\<close> returns if the task calls it.
  The task runs its handler and then the microtasks: the activations awaiting the
  requests that the handler settled continue, and then those awaiting the requests
  that these continuations settled. The latter requests were rejected by \<open>abort\<close>, and
  a \<open>catch\<close> block settles nothing, so no third round is needed.
\<close>

datatype event =
    SettingsChange settings nat
  | InputChange string settings
  | Message "response message_data" nat

fun handler :: "dom \<Rightarrow> event \<Rightarrow> controller \<Rightarrow> controller" where
  "handler env (SettingsChange settings random) st = onSettingsChange env settings random st"
| "handler env (InputChange d settings) st = onInputChange d settings st"
| "handler env (Message m random) st = st\<lparr>svgo := onMessage m (svgo st)\<rparr>"

fun random_of :: "event \<Rightarrow> nat" where
  "random_of (SettingsChange settings random) = random"
| "random_of (InputChange d settings) = 0"
| "random_of (Message m random) = random"

definition microtasks :: "dom \<Rightarrow> nat \<Rightarrow> nat \<Rightarrow> controller \<Rightarrow> controller" where
  "microtasks env random n st =
     fold (resume env random) (settlements (drop n (trace (svgo st)))) st"

definition task :: "dom \<Rightarrow> event \<Rightarrow> controller \<Rightarrow> controller" where
  "task env ev st =
     (let st1 = handler env ev st;
          st2 = microtasks env (random_of ev) (length (trace (svgo st))) st1
      in microtasks env (random_of ev) (length (trace (svgo st1))) st2)"

text \<open>The states the controller can be in between two tasks.\<close>

inductive reachable :: "dom \<Rightarrow> controller \<Rightarrow> bool" for env :: dom where
  start: "reachable env new_controller"
| step: "reachable env st \<Longrightarrow> reachable env (task env ev st)"

fun is_pass :: "activation \<Rightarrow> bool" where
  "is_pass (Load d settings) = False"
| "is_pass _ = True"

fun thisJobId :: "activation \<Rightarrow> nat" where
  "thisJobId (Pass1 j settings) = j"
| "thisJobId (Pass2 j settings) = j"
| "thisJobId (Load d settings) = 0"

text \<open>The suspended activations of \<open>_compressSvg\<close>.\<close>

definition suspended :: "controller \<Rightarrow> activation list" where
  "suspended st = filter is_pass (map snd (awaiting st))"

text \<open>
  What holds of the controller between two tasks: the pending keys are distinct, none is
  0, and they were drawn from the counter; every suspended activation awaits a pending
  request of its own; at most one \<open>_compressSvg\<close> is suspended, and it carries the latest
  job id.
\<close>

definition consistent :: "controller \<Rightarrow> bool" where
  "consistent st \<longleftrightarrow>
     distinct (pending (svgo st)) \<and>
     0 \<notin> set (pending (svgo st)) \<and>
     (\<forall>k\<in>set (pending (svgo st)). k \<le> requestId (svgo st)) \<and>
     fst ` set (awaiting st) \<subseteq> set (pending (svgo st)) \<and>
     distinct (map fst (awaiting st)) \<and>
     length (suspended st) \<le> 1 \<and>
     (\<forall>p\<in>set (awaiting st). is_pass (snd p) \<longrightarrow> thisJobId (snd p) = latestCompressJobId st)"

text \<open>The settlements that \<open>abort\<close> makes of the requests \<open>ks\<close>.\<close>

definition rejections :: "nat list \<Rightarrow> (nat \<times> outcome) list" where
  "rejections ks = map (\<lambda>k. (k, Inl AbortErr)) ks"

text \<open>The outcome that a message gives the request it names.\<close>

definition message_outcome :: "response message_data \<Rightarrow> outcome" where
  "message_outcome m = (case error_of (msg_error m) of Some e \<Rightarrow> Inl e | None \<Rightarrow> Inr (msg_result m))"

text \<open>
  What a piece of controller code does to the messenger and to the suspended
  activations: nothing; or \<open>abort\<close>; or \<open>process\<close>, after which a \<open>_compressSvg\<close> with
  the latest job id awaits the new request.
\<close>

definition continues :: "controller \<Rightarrow> controller \<Rightarrow> bool" where
  "continues st st' \<longleftrightarrow>
     (svgo st' = svgo st \<and> awaiting st' = awaiting st \<and>
        latestCompressJobId st' = latestCompressJobId st) \<or>
     (svgo st' = abort (svgo st) \<and> awaiting st' = awaiting st) \<or>
     (\<exists>t s a. svgo st' = snd (process t s (svgo st)) \<and>
        awaiting st' = awaiting st @ [(fst (process t s (svgo st)), a)] \<and>
        is_pass a \<and> thisJobId a = latestCompressJobId st')"

text \<open>The compression passes requested according to a trace: settings and text.\<close>

fun passes :: "(request, response) effect list \<Rightarrow> (settings \<times> string) list" where
  "passes [] = []"
| "passes (PostMessage w k (Process settings svgText) # tr) = (settings, svgText) # passes tr"
| "passes (_ # tr) = passes tr"

text \<open>The calls a task may make on the user interface when \<open>abort\<close> has rejected a request.\<close>

definition abort_ui :: "ui_call set" where
  "abort_ui = {Done, StopSpinner, HandleError ''Load failed: AbortError''}"

text \<open>The passes that the task of an event requests.\<close>

definition requested :: "dom \<Rightarrow> event \<Rightarrow> controller \<Rightarrow> (settings \<times> string) list" where
  "requested env ev st = passes (drop (length (trace (svgo st))) (trace (svgo (task env ev st))))"

text \<open>
  The tasks in which \<open>_compressSvg\<close> is called, that is, in which a cycle starts, with
  the settings passed: a settings change, and the message that fulfils the
  \<open>wrapOriginal\<close> request of a suspended \<open>_onInputChange\<close>.
\<close>

fun calls_compressSvg :: "event \<Rightarrow> controller \<Rightarrow> settings option" where
  "calls_compressSvg (SettingsChange settings random) st = Some settings"
| "calls_compressSvg (InputChange d settings) st = None"
| "calls_compressSvg (Message m random) st =
     (case msg_id m of
        None \<Rightarrow> None
      | Some k \<Rightarrow>
          if k = 0 \<or> k \<notin> set (pending (svgo st)) then None
          else
            (case map_of (awaiting st) k of
               Some (Load d settings) \<Rightarrow>
                 (case wrapOriginal_result d (message_outcome m) of
                    Inl e \<Rightarrow> None
                  | Inr file \<Rightarrow> Some settings)
             | _ \<Rightarrow> None))"

text \<open>A run of tasks none of which starts a cycle.\<close>

fun uninterrupted :: "dom \<Rightarrow> event list \<Rightarrow> controller \<Rightarrow> bool" where
  "uninterrupted env [] st = True"
| "uninterrupted env (ev # evs) st =
     (calls_compressSvg ev st = None \<and> uninterrupted env evs (task env ev st))"

text \<open>
  The pass that \<open>_compressSvg(settings)\<close> requests before its first \<open>await svgo.process\<close>,
  given the input and the cache: none if \<open>settings.original\<close> is set, on a cache hit,
  without an input, and when a clean-up function throws.
\<close>

definition first_request ::
  "dom \<Rightarrow> settings \<Rightarrow> svgFile option \<Rightarrow> (string, svgFile) results_cache \<Rightarrow> (settings \<times> string) list" where
  "first_request env settings input c =
     (if truthy (options settings ''original'') then []
      else
        (case match (fingerprint settings) c of
           Some cacheMatch \<Rightarrow> []
         | None \<Rightarrow>
             (case input of
                None \<Rightarrow> []
              | Some file \<Rightarrow>
                  (case cleanup env settings (svg_text file) of
                     Inl e \<Rightarrow> []
                   | Inr svgText \<Rightarrow> [(settings, svgText)]))))"

text \<open>
  The calls that \<open>_compressSvg(settings)\<close> makes on the user interface from the comparison
  of the job ids to its first \<open>await svgo.process\<close>, given the input and the cache: they
  are read off a run of that code in a state that holds nothing else.
\<close>

definition first_calls ::
  "dom \<Rightarrow> settings \<Rightarrow> svgFile option \<Rightarrow> (string, svgFile) results_cache \<Rightarrow> ui_call list" where
  "first_calls env settings input c =
     ui (compressSvg_resume env settings 0
           \<lparr>svgo = new_svgo, inputItem = input, cache = c, latestCompressJobId = 0,
            awaiting = [], ui = []\<rparr>)"

text \<open>Concrete inputs used below.\<close>

definition mark_dom :: dom where
  "mark_dom = \<lparr>removeUnusedTextCode = (\<lambda>t. Inr (t @ ''!'')), removeUnusualAttributes = (\<lambda>t. Inr (t @ ''?''))\<rparr>"

definition plain :: settings where
  "plain = \<lparr>options = [''original'' \<mapsto> Flag False, ''gzip'' \<mapsto> Flag False,
                        ''remUnusedTextCode'' \<mapsto> Flag False, ''remUnusualAttributes'' \<mapsto> Flag False],
            plugins = Map.empty, fingerprint = ''0,0''\<rparr>"

definition cleaning :: settings where
  "cleaning = \<lparr>options = [''original'' \<mapsto> Flag False, ''gzip'' \<mapsto> Flag False,
                        ''remUnusedTextCode'' \<mapsto> Flag True, ''remUnusualAttributes'' \<mapsto> Flag False],
               plugins = Map.empty, fingerprint = ''1,0''\<rparr>"

definition answer :: "nat \<Rightarrow> string \<Rightarrow> response message_data" where
  "answer k d =
     \<lparr>msg_id = Some k, msg_result = Some \<lparr>data = d, res_width = 1, res_height = 1\<rparr>, msg_error = None\<rparr>"

definition failure :: "nat \<Rightarrow> string \<Rightarrow> response message_data" where
  "failure k e = \<lparr>msg_id = Some k, msg_result = None, msg_error = Some e\<rparr>"

text \<open>
  The state after the input \<open><svg/>\<close> has been loaded under the settings \<open>cleaning\<close>:
  the cycle that the load started awaits its first pass, request 2, with job id 5.
\<close>

definition in_flight :: controller where
  "in_flight =
     task mark_dom (Message (answer 1 []) 5)
       (task mark_dom (InputChange ''<svg/>'' cleaning) new_controller)"

text \<open>
  The state after the worker has answered that first pass with \<open>a\<close>: the cycle awaits its
  second pass, request 3.
\<close>

definition second_pass :: controller where
  "second_pass = task mark_dom (Message (answer 2 ''a'') 0) in_flight"

text \<open>
  The state \<open>in_flight\<close> while a second input, \<open><g/>\<close>, is being loaded under the settings
  \<open>plain\<close>.
\<close>

definition reloading :: controller where
  "reloading = task mark_dom (InputChange ''<g/>'' plain) in_flight"

section \<open>Facts about the messenger\<close>

lemma emit_simps [simp]:
  "trace (emit e c) = trace c @ [e]"
  "pending (emit e c) = pending c"
  "worker (emit e c) = worker c"
  "spawned (emit e c) = spawned c"
  "requestId (emit e c) = requestId c"
  "messenger.more (emit e c) = messenger.more c"
  by (simp_all add: emit_def)

lemma startWorker_simps [simp]:
  "trace (startWorker c) = trace c @ [NewWorker (spawned c)]"
  "pending (startWorker c) = pending c"
  "worker (startWorker c) = Some (spawned c)"
  "spawned (startWorker c) = Suc (spawned c)"
  "requestId (startWorker c) = requestId c"
  "messenger.more (startWorker c) = messenger.more c"
  by (simp_all add: startWorker_def)

lemma fulfillPending_abort_hit:
  "k \<in> set (pending c) \<Longrightarrow>
   fulfillPending k None (Some AbortErr) c
     = c\<lparr>pending := removeAll k (pending c), trace := trace c @ [Reject k AbortErr]\<rparr>"
  by (simp add: fulfillPending_def emit_def)

lemma filter_removeAll_notin:
  "filter (\<lambda>j. j \<notin> set ks) (removeAll k xs) = filter (\<lambda>j. j \<notin> set (k # ks)) xs"
  by (induction xs) auto

lemma fold_abort:
  "distinct ks \<Longrightarrow> set ks \<subseteq> set (pending c) \<Longrightarrow>
   fold (\<lambda>k. fulfillPending k None (Some AbortErr)) ks c
     = c\<lparr>pending := filter (\<lambda>k. k \<notin> set ks) (pending c),
          trace := trace c @ map (\<lambda>k. Reject k AbortErr) ks\<rparr>"
proof (induction ks arbitrary: c)
  case Nil
  then show ?case by simp
next
  case (Cons k ks)
  let ?c1 = "c\<lparr>pending := removeAll k (pending c), trace := trace c @ [Reject k AbortErr]\<rparr>"
  from Cons.prems have k: "k \<in> set (pending c)" and d: "distinct ks" and nk: "k \<notin> set ks"
    and sub: "set ks \<subseteq> set (pending ?c1)"
    by auto
  have flt: "filter (\<lambda>j. j \<notin> set ks) (removeAll k (pending c))
               = filter (\<lambda>j. j \<notin> set (k # ks)) (pending c)"
    by (rule filter_removeAll_notin)
  show ?case
    using Cons.IH [OF d sub] flt
    by (simp add: fulfillPending_abort_hit [OF k])
qed

lemma abortPending_eq:
  "distinct (pending c) \<Longrightarrow>
   abortPending c = c\<lparr>pending := [], trace := trace c @ map (\<lambda>k. Reject k AbortErr) (pending c)\<rparr>"
  unfolding abortPending_def
  by (subst fold_abort) simp_all

lemma abort_eq:
  "distinct (pending c) \<Longrightarrow> pending c \<noteq> [] \<Longrightarrow>
   abort c = c\<lparr>pending := [], worker := Some (spawned c), spawned := Suc (spawned c),
               trace := trace c @ map (\<lambda>k. Reject k AbortErr) (pending c)
                         @ (case worker c of Some w \<Rightarrow> [Terminate w] | None \<Rightarrow> [])
                         @ [NewWorker (spawned c)]\<rparr>"
  by (simp add: abort_def abortPending_eq startWorker_def emit_def split: option.splits)

lemma release_eq:
  "distinct (pending c) \<Longrightarrow>
   release c = c\<lparr>pending := [], worker := None,
               trace := trace c @ map (\<lambda>k. Reject k AbortErr) (pending c)
                         @ (case worker c of Some w \<Rightarrow> [Terminate w] | None \<Rightarrow> [])\<rparr>"
  by (simp add: release_def abortPending_eq emit_def split: option.splits)

text \<open>
  Claim C2. \<open>abort\<close> on a messenger with no pending entry returns the state unchanged:
  no worker is terminated or started and nothing is emitted. With pending entries (the
  keys of an object are distinct), every one of them is rejected with the AbortError,
  once and in key order, none is resolved, the map is empty when \<open>abort\<close> returns, the
  current worker (if there is one) is terminated and a fresh worker is started after
  that; a following \<open>requestResponse\<close> registers its entry and posts its message to the
  fresh worker.
\<close>

theorem abort_contract:
  assumes "distinct (pending c)"
  shows "(pending c = [] \<longrightarrow> abort c = c) \<and>
         (pending c \<noteq> [] \<longrightarrow>
            pending (abort c) = [] \<and>
            trace (abort c) = trace c @ map (\<lambda>k. Reject k AbortErr) (pending c)
                         @ (case worker c of Some w \<Rightarrow> [Terminate w] | None \<Rightarrow> [])
                         @ [NewWorker (spawned c)] \<and>
            worker (abort c) = Some (spawned c) \<and>
            (\<forall>m. requestResponse m (abort c)
                  = (Suc (requestId c),
                     (abort c)\<lparr>requestId := Suc (requestId c), pending := [Suc (requestId c)],
                       trace := trace (abort c) @ [PostMessage (spawned c) (Suc (requestId c)) m]\<rparr>)))"
proof (intro conjI impI)
  show "abort c = c" if "pending c = []" using that by (simp add: abort_def)
next
  assume ne: "pending c \<noteq> []"
  note eq = abort_eq [OF assms ne]
  show "pending (abort c) = []" by (simp add: eq)
  show "trace (abort c) = trace c @ map (\<lambda>k. Reject k AbortErr) (pending c)
                         @ (case worker c of Some w \<Rightarrow> [Terminate w] | None \<Rightarrow> [])
                         @ [NewWorker (spawned c)]" by (simp add: eq)
  show "worker (abort c) = Some (spawned c)" by (simp add: eq)
  show "\<forall>m. requestResponse m (abort c)
                  = (Suc (requestId c),
                     (abort c)\<lparr>requestId := Suc (requestId c), pending := [Suc (requestId c)],
                       trace := trace (abort c) @ [PostMessage (spawned c) (Suc (requestId c)) m]\<rparr>)"
    by (simp add: eq requestResponse_def emit_def)
qed

theorem abort_contract_witness:
  "distinct (pending two_pending) \<and> pending two_pending \<noteq> [] \<and>
   pending (abort two_pending) = [] \<and>
   trace (abort two_pending)
     = [NewWorker 0, PostMessage 0 1 ''a'', PostMessage 0 2 ''b'',
        Reject 1 AbortErr, Reject 2 AbortErr, Terminate 0, NewWorker 1] \<and>
   worker (abort two_pending) = Some 1 \<and>
   abort (new_messenger :: (string, nat) messenger) = new_messenger"
  using abort_contract [of two_pending] abort_contract [of "new_messenger :: (string, nat) messenger"]
  by (simp add: two_pending_def new_messenger_def)

text \<open>
  Claim C4, as amended. For an inbound message whose id is a pending key and whose
  error string is not empty, exactly that entry is removed and its promise rejected
  with an \<open>Error\<close> carrying the worker's string, whatever the message's result field
  holds (the error takes precedence); every other pending entry stays, and nothing else
  is emitted. (Request ids start at 1, so 0 is never a pending key.)
\<close>

theorem worker_error_correlation:
  assumes "0 \<notin> set (pending c)" and "msg_id d = Some k" and "k \<in> set (pending c)"
    and "msg_error d = Some s" and "s \<noteq> []"
  shows "onMessage d c
           = c\<lparr>pending := removeAll k (pending c), trace := trace c @ [Reject k (Error s)]\<rparr>"
proof -
  from assms(1,3) have "k \<noteq> 0" by (cases k) auto
  with assms show ?thesis
    by (simp add: onMessage_def fulfillPending_def error_of_def emit_def)
qed

theorem worker_error_correlation_witness:
  "0 \<notin> set (pending seven_pending) \<and> 7 \<in> set (pending seven_pending) \<and>
   onMessage \<lparr>msg_id = Some 7, msg_result = Some 3, msg_error = Some ''bad input''\<rparr> seven_pending
     = seven_pending\<lparr>pending := [6, 8], trace := [Reject 7 (Error ''bad input'')]\<rparr>"
  using worker_error_correlation
    [of seven_pending "\<lparr>msg_id = Some 7, msg_result = Some 3, msg_error = Some ''bad input''\<rparr>" 7 "''bad input''"]
  by (simp add: seven_pending_def)

text \<open>
  Claim C4 as stated fails for the empty error string: the message
  \<open>{id: 7, error: ""}\<close> for the pending request 7 resolves its promise (with the
  absent result) and rejects nothing, since \<open>event.data.error && ...\<close> is falsy.
\<close>

theorem empty_error_resolves:
  "trace (onMessage \<lparr>msg_id = Some 7, msg_result = None, msg_error = Some []\<rparr> seven_pending)
     = [Resolve 7 None] \<and>
   pending (onMessage \<lparr>msg_id = Some 7, msg_result = None, msg_error = Some []\<rparr> seven_pending)
     = [6, 8]"
  by (simp add: onMessage_def fulfillPending_def error_of_def emit_def seven_pending_def)

text \<open>
  Claim C5, as amended. \<open>release\<close> rejects every pending entry with the AbortError,
  leaves the map empty, terminates the current worker (if there is one) and starts no
  new one: \<open>_worker\<close> is null afterwards. The instance stays usable: the next
  \<open>requestResponse\<close> finds \<open>_worker\<close> null, starts a fresh worker and posts its message
  to it.
\<close>

theorem release_contract:
  assumes "distinct (pending c)"
  shows "pending (release c) = [] \<and> worker (release c) = None \<and>
         spawned (release c) = spawned c \<and>
         trace (release c) = trace c @ map (\<lambda>k. Reject k AbortErr) (pending c)
                         @ (case worker c of Some w \<Rightarrow> [Terminate w] | None \<Rightarrow> []) \<and>
         (\<forall>m. requestResponse m (release c)
                  = (Suc (requestId c),
                     (release c)\<lparr>requestId := Suc (requestId c), pending := [Suc (requestId c)],
                       worker := Some (spawned c), spawned := Suc (spawned c),
                       trace := trace (release c)
                         @ [NewWorker (spawned c), PostMessage (spawned c) (Suc (requestId c)) m]\<rparr>))"
  by (simp add: release_eq [OF assms] requestResponse_def startWorker_def emit_def)

theorem release_contract_witness:
  "distinct (pending two_pending) \<and>
   pending (release two_pending) = [] \<and> worker (release two_pending) = None \<and>
   trace (release two_pending)
     = [NewWorker 0, PostMessage 0 1 ''a'', PostMessage 0 2 ''b'',
        Reject 1 AbortErr, Reject 2 AbortErr, Terminate 0] \<and>
   trace (snd (requestResponse ''c'' (release two_pending)))
     = [NewWorker 0, PostMessage 0 1 ''a'', PostMessage 0 2 ''b'',
        Reject 1 AbortErr, Reject 2 AbortErr, Terminate 0, NewWorker 1, PostMessage 1 3 ''c'']"
  using release_contract [of two_pending]
  by (simp add: two_pending_def)

text \<open>
  Claim C5 as stated fails: a send on a released instance succeeds. After \<open>release\<close>,
  \<open>requestResponse\<close> draws id 3, starts worker 1 and posts to it; the worker's answer
  resolves the promise.
\<close>

theorem send_after_release_succeeds:
  "(let (k, c) = requestResponse ''c'' (release two_pending);
        c' = onMessage \<lparr>msg_id = Some k, msg_result = Some 42, msg_error = None\<rparr> c
    in k = 3 \<and> worker c = Some 1 \<and> PostMessage 1 3 ''c'' \<in> set (trace c) \<and>
       Terminate 1 \<notin> set (trace c') \<and> Resolve 3 (Some 42) \<in> set (trace c'))"
  by (simp add: release_def abortPending_def fulfillPending_def requestResponse_def
      startWorker_def emit_def onMessage_def error_of_def two_pending_def AbortErr_def
      DOMException_def)

section \<open>Facts about the cache\<close>





text \<open>
  With capacity 0 the cursor is \<open>NaN\<close> after the first \<open>add\<close>: the first pair stays in
  slot 0, every later pair is stored under the property \<open>NaN\<close>, where \<open>match\<close> does not
  find it, and is released by the next \<open>add\<close>.
\<close>

lemma add_without_capacity:
  "fst (add_all [(f1, a1), (f2, a2), (f3, a3)] ([], new_cache 0)) = [a2]"
  "match f1 (snd (add_all [(f1, a1), (f2, a2), (f3, a3)] ([], new_cache 0))) = Some a1"
  "f2 \<noteq> f1 \<Longrightarrow> match f2 (snd (add_all [(f1, a1), (f2, a2), (f3, a3)] ([], new_cache 0))) = None"
  by (simp_all add: add_def new_cache_def purge_def js_get_def js_set_def match_def)



section \<open>Facts about the fingerprint\<close>

lemma join_Cons: "xs \<noteq> [] \<Longrightarrow> join (x # xs) = x @ '','' @ join xs"
  by (cases xs) simp_all

lemma comma_split:
  "CHR '','' \<notin> set a \<Longrightarrow> CHR '','' \<notin> set b \<Longrightarrow> a @ CHR '','' # r = b @ CHR '','' # s
   \<Longrightarrow> a = b \<and> r = s"
proof (induction a arbitrary: b)
  case Nil
  then show ?case by (cases b) auto
next
  case (Cons x a)
  then show ?case by (cases b) auto
qed

lemma join_inj:
  "length xs = length ys \<Longrightarrow> \<forall>x\<in>set xs. CHR '','' \<notin> set x \<Longrightarrow> \<forall>y\<in>set ys. CHR '','' \<notin> set y
   \<Longrightarrow> join xs = join ys \<Longrightarrow> xs = ys"
proof (induction xs ys rule: list_induct2)
  case Nil
  then show ?case by simp
next
  case (Cons x xs y ys)
  show ?case
  proof (cases "xs = []")
    case True
    with Cons show ?thesis by simp
  next
    case False
    with Cons.hyps have ne: "ys \<noteq> []" by auto
    from Cons.prems(3) have "x @ CHR '','' # join xs = y @ CHR '','' # join ys"
      by (simp add: join_Cons False ne)
    with Cons.prems(1,2) have "x = y" and "join xs = join ys"
      using comma_split [of x y "join xs" "join ys"] by auto
    with Cons show ?thesis by simp
  qed
qed

lemma Number_no_comma: "CHR '','' \<notin> set (Number b)"
  by (simp add: Number_def)

lemma Number_inj: "Number a = Number b \<Longrightarrow> a = b"
  by (simp add: Number_def split: if_splits)

lemma Number_map_inj:
  "map (\<lambda>e. Number (checked e)) ps = map (\<lambda>e. Number (checked e)) ps'
   \<Longrightarrow> map checked ps = map checked ps'"
proof (induction ps arbitrary: ps')
  case Nil
  then show ?case by simp
next
  case (Cons e ps)
  from Cons.prems obtain e' rest where ps': "ps' = e' # rest"
    and hd: "Number (checked e) = Number (checked e')"
    and tl: "map (\<lambda>e. Number (checked e)) ps = map (\<lambda>e. Number (checked e)) rest"
    by (cases ps') auto
  from hd have "checked e = checked e'" by (rule Number_inj)
  with Cons.IH [OF tl] show ?case by (simp add: ps')
qed

lemma global_entries_no_comma:
  "\<forall>e\<in>set gs. type e \<noteq> ''checkbox'' \<longrightarrow> CHR '','' \<notin> set (val e)
   \<Longrightarrow> \<forall>x\<in>set (global_entries gs). CHR '','' \<notin> set x"
  by (induction gs) (simp_all add: entry_def Number_no_comma)

lemma global_entries_length:
  "map name gs = map name gs' \<Longrightarrow> length (global_entries gs) = length (global_entries gs')"
proof (induction gs arbitrary: gs')
  case Nil
  then show ?case by simp
next
  case (Cons e gs)
  from Cons.prems obtain e' rest where gs': "gs' = e' # rest"
    and nm: "name e' = name e" and names: "map name gs = map name rest"
    by (cases gs') auto
  from Cons.IH [OF names] show ?case by (simp add: gs' nm)
qed

lemma entry_stored: "type e' = type e \<Longrightarrow> entry e = entry e' \<Longrightarrow> stored e = stored e'"
  by (cases "type e = ''checkbox''") (simp_all add: entry_def stored_def Number_inj)

lemma global_options_agree:
  "map name gs = map name gs' \<Longrightarrow> map type gs = map type gs'
   \<Longrightarrow> global_entries gs = global_entries gs'
   \<Longrightarrow> \<forall>n. n \<noteq> ''gzip'' \<and> n \<noteq> ''original'' \<longrightarrow> out n = out' n
   \<Longrightarrow> n \<noteq> ''gzip'' \<and> n \<noteq> ''original''
   \<Longrightarrow> global_options gs out n = global_options gs' out' n"
proof (induction gs arbitrary: gs' out out')
  case Nil
  then show ?case by simp
next
  case (Cons e gs)
  from Cons.prems(1) obtain e' rest where gs': "gs' = e' # rest"
    and nm: "name e' = name e" and names: "map name gs = map name rest"
    by (cases gs') auto
  from Cons.prems(2) gs' have ty: "type e' = type e" and types: "map type gs = map type rest"
    by simp_all
  let ?o = "out(name e \<mapsto> stored e)" and ?o' = "out'(name e' \<mapsto> stored e')"
  have step: "global_options (e # gs) out n = global_options gs ?o n"
    "global_options gs' out' n = global_options rest ?o' n"
    by (simp_all add: gs')
  have ents: "global_entries gs = global_entries rest"
    using Cons.prems(3) by (simp add: gs' nm split: if_splits)
  have agree: "\<forall>n. n \<noteq> ''gzip'' \<and> n \<noteq> ''original'' \<longrightarrow> ?o n = ?o' n"
  proof (cases "name e \<noteq> ''gzip'' \<and> name e \<noteq> ''original''")
    case True
    with Cons.prems(3) have "entry e = entry e'" by (simp add: gs' nm)
    with ty have "stored e = stored e'" by (rule entry_stored)
    with Cons.prems(4) nm show ?thesis by simp
  next
    case False
    with Cons.prems(4) nm show ?thesis by auto
  qed
  have "global_options gs ?o n = global_options rest ?o' n"
    by (rule Cons.IH [OF names types ents agree Cons.prems(5)])
  with step show ?case by (simp only:)
qed

lemma plugin_options_agree:
  "map name ps = map name ps' \<Longrightarrow> map checked ps = map checked ps'
   \<Longrightarrow> plugin_options ps out = plugin_options ps' out"
proof (induction ps arbitrary: ps' out)
  case Nil
  then show ?case by simp
next
  case (Cons e ps)
  from Cons.prems(1) obtain e' rest where ps': "ps' = e' # rest"
    and nm: "name e' = name e" and names: "map name ps = map name rest"
    by (cases ps') auto
  from Cons.prems(2) have ch: "checked e' = checked e" and chs: "map checked ps = map checked rest"
    by (simp_all add: ps')
  have "plugin_options (e # ps) out = plugin_options ps (out(name e \<mapsto> checked e))"
    by simp
  also have "\<dots> = plugin_options rest (out(name e \<mapsto> checked e))"
    by (rule Cons.IH [OF names chs])
  also have "\<dots> = plugin_options ps' out"
    by (simp add: ps' nm ch)
  finally show ?case .
qed

text \<open>
  Entries without a comma are recovered from the joined string: on two states of the
  same inputs in which no value string holds a comma, equal fingerprints give equal
  entries, and so equal options.
\<close>

lemma fingerprint_inj_no_comma:
  assumes names: "map name gs = map name gs'" and types: "map type gs = map type gs'"
    and pnames: "map name ps = map name ps'"
    and commas: "\<forall>e\<in>set gs \<union> set gs'. type e \<noteq> ''checkbox'' \<longrightarrow> CHR '','' \<notin> set (val e)"
    and eq: "fingerprint (getSettings gs ps) = fingerprint (getSettings gs' ps')"
  shows "(\<forall>n. n \<noteq> ''gzip'' \<and> n \<noteq> ''original''
            \<longrightarrow> options (getSettings gs ps) n = options (getSettings gs' ps') n) \<and>
         plugins (getSettings gs ps) = plugins (getSettings gs' ps')"
proof -
  let ?P = "map (\<lambda>e. Number (checked e)) ps" and ?P' = "map (\<lambda>e. Number (checked e)) ps'"
  have lenP: "length ps = length ps'" using pnames by (metis length_map)
  have lenG: "length (global_entries gs) = length (global_entries gs')"
    by (rule global_entries_length [OF names])
  have c1: "\<forall>x\<in>set (global_entries gs @ ?P). CHR '','' \<notin> set x"
    using global_entries_no_comma [of gs] commas by (auto simp: Number_no_comma)
  have c2: "\<forall>x\<in>set (global_entries gs' @ ?P'). CHR '','' \<notin> set x"
    using global_entries_no_comma [of gs'] commas by (auto simp: Number_no_comma)
  have "global_entries gs @ ?P = global_entries gs' @ ?P'"
    using eq by (intro join_inj [OF _ c1 c2]) (simp_all add: getSettings_def lenG lenP)
  with lenG have ents: "global_entries gs = global_entries gs'" and P: "?P = ?P'"
    by simp_all
  from P have "map checked ps = map checked ps'"
    by (rule Number_map_inj)
  then have "plugins (getSettings gs ps) = plugins (getSettings gs' ps')"
    by (simp add: getSettings_def plugin_options_agree [OF pnames])
  moreover have "options (getSettings gs ps) n = options (getSettings gs' ps') n"
    if "n \<noteq> ''gzip'' \<and> n \<noteq> ''original''" for n
    using global_options_agree [OF names types ents _ that, of Map.empty Map.empty]
    by (simp add: getSettings_def)
  ultimately show ?thesis by blast
qed

lemma number_string_no_comma: "number_string v \<Longrightarrow> CHR '','' \<notin> set v"
  unfolding number_string_def by auto

lemma page_input_no_comma:
  "page_input e \<Longrightarrow> type e \<noteq> ''checkbox'' \<Longrightarrow> CHR '','' \<notin> set (val e)"
  unfolding page_input_def using number_string_no_comma by blast

text \<open>
  Claim C7. Take two states of the inputs of the settings panel: the same inputs (the
  same names and types, in the same order), each a checkbox or a range slider. If the
  two settings objects have the same fingerprint, they agree on every option other than
  \<open>gzip\<close> and \<open>original\<close> and on every plugin toggle; so two settings objects that differ
  in such an option have different fingerprints.
\<close>

theorem fingerprint_injective:
  assumes names: "map name gs = map name gs'" and types: "map type gs = map type gs'"
    and pnames: "map name ps = map name ps'"
    and page: "\<forall>e\<in>set gs \<union> set gs'. page_input e"
    and eq: "fingerprint (getSettings gs ps) = fingerprint (getSettings gs' ps')"
  shows "(\<forall>n. n \<noteq> ''gzip'' \<and> n \<noteq> ''original''
            \<longrightarrow> options (getSettings gs ps) n = options (getSettings gs' ps') n) \<and>
         plugins (getSettings gs ps) = plugins (getSettings gs' ps')"
proof -
  from page have "\<forall>e\<in>set gs \<union> set gs'. type e \<noteq> ''checkbox'' \<longrightarrow> CHR '','' \<notin> set (val e)"
    using page_input_no_comma by blast
  then show ?thesis
    by (rule fingerprint_inj_no_comma [OF names types pnames _ eq])
qed

theorem fingerprint_injective_witness:
  "map name (page_inputs False True True ''3'') = map name (page_inputs True False True ''3'') \<and>
   map type (page_inputs False True True ''3'') = map type (page_inputs True False True ''3'') \<and>
   list_all page_input (page_inputs False True True ''3'') \<and>
   list_all page_input (page_inputs True False True ''3'') \<and>
   fingerprint (getSettings (page_inputs False True True ''3'') (plugin_inputs True False))
     = fingerprint (getSettings (page_inputs True False True ''3'') (plugin_inputs True False)) \<and>
   options (getSettings (page_inputs False True True ''3'') (plugin_inputs True False)) ''floatPrecision''
     = options (getSettings (page_inputs True False True ''3'') (plugin_inputs True False)) ''floatPrecision'' \<and>
   plugins (getSettings (page_inputs False True True ''3'') (plugin_inputs True False))
     = plugins (getSettings (page_inputs True False True ''3'') (plugin_inputs True False))"
  using fingerprint_injective [of "page_inputs False True True ''3''" "page_inputs True False True ''3''"
      "plugin_inputs True False" "plugin_inputs True False"]
  by (simp add: page_inputs_def plugin_inputs_def getSettings_def Number_def entry_def
      page_input_def number_string_def)

lemma global_entries_presentation:
  "list_all2 (\<lambda>e e'. if name e = ''gzip'' \<or> name e = ''original'' then name e' = name e else e' = e) gs gs'
   \<Longrightarrow> global_entries gs = global_entries gs'"
  by (induction gs gs' rule: list_all2_induct) (auto split: if_splits)

text \<open>
  Claim C8. The fingerprint is a function of the state of the inputs alone, so computing
  it twice from an unchanged state gives the same string (the case \<open>gs' = gs\<close> below);
  and two states that differ only in the state of the inputs named \<open>gzip\<close> and
  \<open>original\<close> have the same fingerprint.
\<close>

theorem fingerprint_presentation_insensitive:
  assumes "list_all2 (\<lambda>e e'. if name e = ''gzip'' \<or> name e = ''original'' then name e' = name e else e' = e) gs gs'"
  shows "fingerprint (getSettings gs ps) = fingerprint (getSettings gs' ps)"
  using global_entries_presentation [OF assms] by (simp add: getSettings_def)

theorem fingerprint_presentation_insensitive_witness:
  "fingerprint (getSettings (page_inputs False True True ''3'') (plugin_inputs True False))
     = fingerprint (getSettings (page_inputs True False True ''3'') (plugin_inputs True False)) \<and>
   fingerprint (getSettings (page_inputs True False True ''3'') (plugin_inputs True False)) = ''1,|3|,1,0'' \<and>
   fingerprint (getSettings (page_inputs True False True ''3'') (plugin_inputs True False))
     = fingerprint (getSettings (page_inputs True False True ''3'') (plugin_inputs True False))"
  using fingerprint_presentation_insensitive
      [of "page_inputs False True True ''3''" "page_inputs True False True ''3''" "plugin_inputs True False"]
    fingerprint_presentation_insensitive
      [of "page_inputs True False True ''3''" "page_inputs True False True ''3''" "plugin_inputs True False"]
  by (simp add: page_inputs_def plugin_inputs_def getSettings_def Number_def entry_def)

section \<open>Facts about SvgFile\<close>

lemma release_funpow_None: "url f = None \<Longrightarrow> (svgFile_release f ^^ n) u = u"
  by (induction n) (simp_all add: svgFile_release_def)

lemma release_funpow_Some:
  "url f = Some h \<Longrightarrow>
   (svgFile_release f ^^ n) u = u\<lparr>calls := calls u @ replicate n (RevokeObjectURL h)\<rparr>"
proof (induction n)
  case 0
  then show ?case by simp
next
  case (Suc n)
  then show ?case
    by (simp add: svgFile_release_def replicate_append_same)
qed

text \<open>
  Claim C9, as amended. \<open>release()\<close> is guarded by \<open>_url\<close> alone: on a file whose URL
  was never created it does nothing, however often it is called; on a file with a URL
  every call revokes that URL again, so \<open>n\<close> calls revoke it \<open>n\<close> times. No field
  records that the file has been released.
\<close>

theorem release_revokes_each_time:
  "(url f = None \<longrightarrow> (svgFile_release f ^^ n) u = u) \<and>
   (\<forall>h. url f = Some h \<longrightarrow>
      (svgFile_release f ^^ n) u = u\<lparr>calls := calls u @ replicate n (RevokeObjectURL h)\<rparr>)"
  by (simp add: release_funpow_None release_funpow_Some)

theorem release_revokes_each_time_witness:
  "url (new_SvgFile ''<svg/>'' 1 1) = None \<and>
   (svgFile_release (new_SvgFile ''<svg/>'' 1 1) ^^ 2) no_urls = no_urls \<and>
   url ((new_SvgFile ''<svg/>'' 1 1)\<lparr>url := Some 0\<rparr>) = Some 0 \<and>
   (svgFile_release ((new_SvgFile ''<svg/>'' 1 1)\<lparr>url := Some 0\<rparr>) ^^ 2) no_urls
     = no_urls\<lparr>calls := [RevokeObjectURL 0, RevokeObjectURL 0]\<rparr>"
  using release_revokes_each_time [of "new_SvgFile ''<svg/>'' 1 1" 2 no_urls]
    release_revokes_each_time [of "(new_SvgFile ''<svg/>'' 1 1)\<lparr>url := Some 0\<rparr>" 2 no_urls]
  by (simp add: new_SvgFile_def no_urls_def numeral_2_eq_2)

text \<open>
  Claim C9 as stated fails: a second \<open>release()\<close> is not a no-op. After the URL of a
  file has been created, two calls of \<open>release()\<close> revoke it twice.
\<close>

theorem second_release_revokes_again:
  "(case get_url (new_SvgFile ''<svg/>'' 1 1) no_urls of
      (h, f, u) \<Rightarrow>
        calls (svgFile_release f u) = [CreateObjectURL 0 ''<svg/>'', RevokeObjectURL 0] \<and>
        calls (svgFile_release f (svgFile_release f u))
          = [CreateObjectURL 0 ''<svg/>'', RevokeObjectURL 0, RevokeObjectURL 0] \<and>
        svgFile_release f (svgFile_release f u) \<noteq> svgFile_release f u)"
  by (simp add: get_url_def svgFile_release_def new_SvgFile_def no_urls_def)

lemma posts_append [simp]: "posts (xs @ ys) = posts xs + posts ys"
  by (simp add: posts_def)










section \<open>Facts about the controller\<close>

subsection \<open>The messenger of svgo\<close>

lemma settlements_append [simp]: "settlements (xs @ ys) = settlements xs @ settlements ys"
  by (induction xs rule: settlements.induct) simp_all

lemma settlements_rejects [simp]:
  "settlements (map (\<lambda>k. Reject k AbortErr) ks) = rejections ks"
  by (induction ks) (simp_all add: rejections_def)

lemma passes_append [simp]: "passes (xs @ ys) = passes xs @ passes ys"
  by (induction xs rule: passes.induct) simp_all

lemma passes_rejects [simp]: "passes (map (\<lambda>k. Reject k e) ks) = []"
  by (induction ks) simp_all

lemma abort_empty [simp]: "pending c = [] \<Longrightarrow> abort c = c"
  by (simp add: abort_def)

lemma abort_shape:
  assumes "distinct (pending c)"
  shows "pending (abort c) = [] \<and> requestId (abort c) = requestId c \<and>
         (\<exists>new. trace (abort c) = trace c @ new \<and> settlements new = rejections (pending c) \<and>
                 passes new = [])"
proof (cases "pending c = []")
  case True
  then show ?thesis by (simp add: rejections_def)
next
  case False
  have "settlements (map (\<lambda>k. Reject k AbortErr) (pending c)
                       @ (case worker c of Some w \<Rightarrow> [Terminate w] | None \<Rightarrow> [])
                       @ [NewWorker (spawned c)]) = rejections (pending c)"
    by (simp split: option.splits)
  moreover have "passes (map (\<lambda>k. Reject k AbortErr) (pending c)
                       @ (case worker c of Some w \<Rightarrow> [Terminate w] | None \<Rightarrow> [])
                       @ [NewWorker (spawned c)]) = []"
    by (simp split: option.splits)
  ultimately show ?thesis
    by (simp add: abort_eq [OF assms False])
qed

lemma abort_idem:
  assumes "distinct (pending c)"
  shows "abort (abort c) = abort c"
proof (cases "pending c = []")
  case True
  then show ?thesis by simp
next
  case False
  from abort_eq [OF assms False] have "pending (abort c) = []" by simp
  then show ?thesis by (rule abort_empty)
qed

lemma requestResponse_shape:
  "fst (requestResponse m c) = Suc (requestId c) \<and>
   requestId (snd (requestResponse m c)) = Suc (requestId c) \<and>
   pending (snd (requestResponse m c))
     = (if Suc (requestId c) \<in> set (pending c) then pending c else pending c @ [Suc (requestId c)]) \<and>
   (\<exists>w. trace (snd (requestResponse m c))
          = trace c @ (if worker c = None then [NewWorker w] else []) @ [PostMessage w (Suc (requestId c)) m])"
  by (cases "worker c") (auto simp: requestResponse_def Let_def emit_def startWorker_def)

lemma process_shape:
  assumes "distinct (pending c)"
  shows "fst (process t s c) = Suc (requestId c) \<and>
         requestId (snd (process t s c)) = Suc (requestId c) \<and>
         pending (snd (process t s c)) = [Suc (requestId c)] \<and>
         (\<exists>new. trace (snd (process t s c)) = trace c @ new \<and>
                 settlements new = rejections (pending c) \<and> passes new = [(s, t)])"
proof -
  from abort_shape [OF assms] obtain new where
    a: "pending (abort c) = []" "requestId (abort c) = requestId c"
      "trace (abort c) = trace c @ new" "settlements new = rejections (pending c)" "passes new = []"
    by blast
  from requestResponse_shape [of "Process s t" "abort c"] obtain w where
    r: "fst (requestResponse (Process s t) (abort c)) = Suc (requestId c)"
      "requestId (snd (requestResponse (Process s t) (abort c))) = Suc (requestId c)"
      "pending (snd (requestResponse (Process s t) (abort c))) = [Suc (requestId c)]"
      "trace (snd (requestResponse (Process s t) (abort c)))
         = trace c @ new @ (if worker (abort c) = None then [NewWorker w] else [])
             @ [PostMessage w (Suc (requestId c)) (Process s t)]"
    by (auto simp: a)
  have "settlements (new @ (if worker (abort c) = None then [NewWorker w] else [])
             @ [PostMessage w (Suc (requestId c)) (Process s t)]) = rejections (pending c)"
    by (simp add: a)
  moreover have "passes (new @ (if worker (abort c) = None then [NewWorker w] else [])
             @ [PostMessage w (Suc (requestId c)) (Process s t)]) = [(s, t)]"
    by (simp add: a)
  ultimately show ?thesis
    using r by (auto simp: process_def split: prod.splits)
qed

lemma process_abort: "distinct (pending c) \<Longrightarrow> process t s (abort c) = process t s c"
  by (simp add: process_def abort_idem)

lemma onMessage_hit:
  assumes "msg_id m = Some k" and "k \<noteq> 0" and "k \<in> set (pending c)"
  shows "pending (onMessage m c) = removeAll k (pending c) \<and>
         requestId (onMessage m c) = requestId c \<and>
         (\<exists>e. trace (onMessage m c) = trace c @ [e] \<and>
               settlements [e] = [(k, message_outcome m)] \<and> passes [e] = [])"
  using assms
  by (auto simp: onMessage_def fulfillPending_def message_outcome_def emit_def
      split: option.splits)

lemma onMessage_miss:
  assumes "\<not> (\<exists>k. msg_id m = Some k \<and> k \<noteq> 0 \<and> k \<in> set (pending c))"
  shows "pending (onMessage m c) = pending c \<and>
         requestId (onMessage m c) = requestId c \<and>
         (\<exists>e. trace (onMessage m c) = trace c @ [e] \<and> settlements [e] = [] \<and> passes [e] = [])"
  using assms
  by (auto simp: onMessage_def fulfillPending_def emit_def split: option.splits)
subsection \<open>The pieces of the controller's methods\<close>

lemma call_ui_fields [simp]:
  "svgo (call_ui c st) = svgo st"
  "awaiting (call_ui c st) = awaiting st"
  "latestCompressJobId (call_ui c st) = latestCompressJobId st"
  "cache (call_ui c st) = cache st"
  "inputItem (call_ui c st) = inputItem st"
  "ui (call_ui c st) = ui st @ [c]"
  by (simp_all add: call_ui_def)

lemma compressSvg_catch_fields [simp]:
  "svgo (compressSvg_catch e st) = svgo st"
  "awaiting (compressSvg_catch e st) = awaiting st"
  "latestCompressJobId (compressSvg_catch e st) = latestCompressJobId st"
  "cache (compressSvg_catch e st) = cache st"
  "inputItem (compressSvg_catch e st) = inputItem st"
  by (simp_all add: compressSvg_catch_def)

lemma compressSvg_catch_abort [simp]: "ui (compressSvg_catch AbortErr st) = ui st @ [Done]"
  by (simp add: compressSvg_catch_def AbortErr_def DOMException_def)

lemma onInputChange_catch_fields [simp]:
  "svgo (onInputChange_catch e st) = svgo st"
  "awaiting (onInputChange_catch e st) = awaiting st"
  "latestCompressJobId (onInputChange_catch e st) = latestCompressJobId st"
  "cache (onInputChange_catch e st) = cache st"
  "inputItem (onInputChange_catch e st) = inputItem st"
  by (simp_all add: onInputChange_catch_def)

lemma onInputChange_catch_abort [simp]:
  "ui (onInputChange_catch AbortErr st)
     = ui st @ [StopSpinner, HandleError ''Load failed: AbortError'']"
  by (simp add: onInputChange_catch_def AbortErr_def DOMException_def)

lemma compressSvg_finish_fields [simp]:
  "svgo (compressSvg_finish s f st) = svgo st"
  "awaiting (compressSvg_finish s f st) = awaiting st"
  "latestCompressJobId (compressSvg_finish s f st) = latestCompressJobId st"
  "inputItem (compressSvg_finish s f st) = inputItem st"
  by (simp_all add: compressSvg_finish_def Let_def split: prod.splits option.splits)

lemma compressSvg_call_fields [simp]:
  "svgo (compressSvg_call r st) = abort (svgo st)"
  "awaiting (compressSvg_call r st) = awaiting st"
  "latestCompressJobId (compressSvg_call r st) = r"
  "cache (compressSvg_call r st) = cache st"
  "inputItem (compressSvg_call r st) = inputItem st"
  "ui (compressSvg_call r st) = ui st"
  by (simp_all add: compressSvg_call_def)

lemma continuesI1:
  "svgo st' = svgo st \<Longrightarrow> awaiting st' = awaiting st
   \<Longrightarrow> latestCompressJobId st' = latestCompressJobId st \<Longrightarrow> continues st st'"
  by (simp add: continues_def)

lemma continuesI3:
  "svgo st' = snd (process t s (svgo st))
   \<Longrightarrow> awaiting st' = awaiting st @ [(fst (process t s (svgo st)), a)]
   \<Longrightarrow> is_pass a \<Longrightarrow> thisJobId a = latestCompressJobId st' \<Longrightarrow> continues st st'"
  unfolding continues_def by blast

lemma compressSvg_try_fields [simp]:
  "latestCompressJobId (compressSvg_try env s j st) = latestCompressJobId st"
  "cache (compressSvg_try env s j st) = cache st"
  "inputItem (compressSvg_try env s j st) = inputItem st"
  by (simp_all add: compressSvg_try_def split: option.splits sum.splits prod.splits)

lemma compressSvg_try_continues:
  assumes "j = latestCompressJobId st"
  shows "continues st (compressSvg_try env s j st)"
proof (cases "inputItem st")
  case None
  then show ?thesis by (simp add: compressSvg_try_def continuesI1)
next
  case (Some input)
  show ?thesis
  proof (cases "cleanup env s (svg_text input)")
    case (Inl e)
    with Some show ?thesis by (simp add: compressSvg_try_def continuesI1)
  next
    case (Inr t)
    with Some assms show ?thesis
      by (intro continuesI3 [of _ t s _ "Pass1 j s"])
        (simp_all add: compressSvg_try_def split: prod.splits)
  qed
qed

lemma compressSvg_resume_fields [simp]:
  "latestCompressJobId (compressSvg_resume env s j st) = latestCompressJobId st"
  "cache (compressSvg_resume env s j st) = cache st"
  "inputItem (compressSvg_resume env s j st) = inputItem st"
  by (simp_all add: compressSvg_resume_def split: option.splits)

lemma compressSvg_resume_continues:
  "continues st (compressSvg_resume env s j st)"
proof (cases "j = latestCompressJobId st")
  case False
  then show ?thesis by (simp add: compressSvg_resume_def continuesI1)
next
  case True
  have "continues (call_ui Working st) (compressSvg_try env s j (call_ui Working st))"
    by (rule compressSvg_try_continues) (simp add: True)
  then have "continues st (compressSvg_try env s j (call_ui Working st))"
    by (simp add: continues_def)
  then show ?thesis
    using True by (auto simp: compressSvg_resume_def continuesI1 split: option.splits)
qed

lemma compressSvg_pass1_fields [simp]:
  "latestCompressJobId (compressSvg_pass1 env s j f st) = latestCompressJobId st"
  "inputItem (compressSvg_pass1 env s j f st) = inputItem st"
  by (simp_all add: compressSvg_pass1_def split: sum.splits prod.splits)

lemma compressSvg_pass1_continues:
  assumes "j = latestCompressJobId st"
  shows "continues st (compressSvg_pass1 env s j f st)"
proof (cases "cleans s")
  case False
  then show ?thesis by (simp add: compressSvg_pass1_def continuesI1)
next
  case True
  show ?thesis
  proof (cases "cleanup env s (svg_text f)")
    case (Inl e)
    with True show ?thesis by (simp add: compressSvg_pass1_def continuesI1)
  next
    case (Inr t)
    with True assms show ?thesis
      by (intro continuesI3 [of _ t s _ "Pass2 j s"])
        (simp_all add: compressSvg_pass1_def split: prod.splits)
  qed
qed

text \<open>A piece of code that runs after \<open>abort\<close> has been called.\<close>

lemma continues_after_abort:
  assumes d: "distinct (pending (svgo st))"
    and a: "svgo st0 = abort (svgo st)" "awaiting st0 = awaiting st"
    and r: "latestCompressJobId st' = latestCompressJobId st0"
    and c: "continues st0 st'"
  shows "continues st st'"
  using c unfolding continues_def a
  by (auto simp: abort_idem [OF d] process_abort [OF d])

lemma onSettingsChange_fields [simp]:
  "latestCompressJobId (onSettingsChange env s r st) = r"
  "cache (onSettingsChange env s r st) = cache st"
  "inputItem (onSettingsChange env s r st) = inputItem st"
  by (simp_all add: onSettingsChange_def)

lemma onSettingsChange_continues:
  assumes "distinct (pending (svgo st))"
  shows "continues st (onSettingsChange env s r st)"
  unfolding onSettingsChange_def
  by (rule continues_after_abort [OF assms, of "compressSvg_call r st"])
    (simp_all add: compressSvg_resume_continues)

lemma onInputChange_loaded_fields [simp]:
  "latestCompressJobId (onInputChange_loaded env r s f st) = r"
  "cache (onInputChange_loaded env r s f st) = purge (cache st)"
  "inputItem (onInputChange_loaded env r s f st) = Some f"
  by (simp_all add: onInputChange_loaded_def)

lemma onInputChange_loaded_continues:
  assumes "distinct (pending (svgo st))"
  shows "continues st (onInputChange_loaded env r s f st)"
  unfolding onInputChange_loaded_def
  by (rule continues_after_abort [OF assms,
        of "call_ui ResetOutput (compressSvg_call r (st\<lparr>inputItem := Some f, cache := purge (cache st)\<rparr>))"])
    (simp_all add: compressSvg_resume_continues)

lemma continue_continues:
  assumes "distinct (pending (svgo st))"
    and "is_pass a \<longrightarrow> thisJobId a = latestCompressJobId st"
  shows "continues st (continue env r a out st)"
proof (cases a)
  case (Pass1 j s)
  with assms(2) show ?thesis
    by (cases "process_result out") (simp_all add: continuesI1 compressSvg_pass1_continues)
next
  case (Pass2 j s)
  then show ?thesis
    by (cases "process_result out") (simp_all add: continuesI1)
next
  case (Load d s)
  then show ?thesis
    by (cases "wrapOriginal_result d out")
      (simp_all add: continuesI1 onInputChange_loaded_continues [OF assms(1)])
qed
subsection \<open>Microtasks\<close>

lemma map_of_None_filter: "map_of xs k = None \<Longrightarrow> filter (\<lambda>p. fst p \<noteq> k) xs = xs"
  by (induction xs) (auto split: if_splits)

lemma filter_filter_notin:
  "filter (\<lambda>p. fst p \<notin> set ks) (filter (\<lambda>p. fst p \<noteq> k) xs)
     = filter (\<lambda>p. fst p \<notin> set (k # ks)) xs"
  by (induction xs) auto

lemma resume_rejected:
  "svgo (resume env r (k, Inl AbortErr) st) = svgo st \<and>
   latestCompressJobId (resume env r (k, Inl AbortErr) st) = latestCompressJobId st \<and>
   cache (resume env r (k, Inl AbortErr) st) = cache st \<and>
   inputItem (resume env r (k, Inl AbortErr) st) = inputItem st \<and>
   awaiting (resume env r (k, Inl AbortErr) st) = filter (\<lambda>p. fst p \<noteq> k) (awaiting st) \<and>
   (\<exists>calls. ui (resume env r (k, Inl AbortErr) st) = ui st @ calls \<and> set calls \<subseteq> abort_ui)"
proof (cases "map_of (awaiting st) k")
  case None
  then show ?thesis by (simp add: resume_def map_of_None_filter)
next
  case (Some a)
  then show ?thesis
    by (cases a) (simp_all add: resume_def process_result_def wrapOriginal_result_def abort_ui_def)
qed

lemma sweep:
  "svgo (fold (resume env r) (rejections ks) st) = svgo st \<and>
   latestCompressJobId (fold (resume env r) (rejections ks) st) = latestCompressJobId st \<and>
   cache (fold (resume env r) (rejections ks) st) = cache st \<and>
   inputItem (fold (resume env r) (rejections ks) st) = inputItem st \<and>
   awaiting (fold (resume env r) (rejections ks) st) = filter (\<lambda>p. fst p \<notin> set ks) (awaiting st) \<and>
   (\<exists>calls. ui (fold (resume env r) (rejections ks) st) = ui st @ calls \<and> set calls \<subseteq> abort_ui)"
proof (induction ks arbitrary: st)
  case Nil
  then show ?case by (simp add: rejections_def)
next
  case (Cons k ks)
  let ?st = "resume env r (k, Inl AbortErr) st"
  from resume_rejected [of env r k st] obtain c1 where
    one: "svgo ?st = svgo st" "latestCompressJobId ?st = latestCompressJobId st"
      "cache ?st = cache st" "inputItem ?st = inputItem st"
      "awaiting ?st = filter (\<lambda>p. fst p \<noteq> k) (awaiting st)"
      "ui ?st = ui st @ c1" "set c1 \<subseteq> abort_ui"
    by blast
  from Cons.IH [of ?st] obtain c2 where
    rest: "svgo (fold (resume env r) (rejections ks) ?st) = svgo ?st"
      "latestCompressJobId (fold (resume env r) (rejections ks) ?st) = latestCompressJobId ?st"
      "cache (fold (resume env r) (rejections ks) ?st) = cache ?st"
      "inputItem (fold (resume env r) (rejections ks) ?st) = inputItem ?st"
      "awaiting (fold (resume env r) (rejections ks) ?st) = filter (\<lambda>p. fst p \<notin> set ks) (awaiting ?st)"
      "ui (fold (resume env r) (rejections ks) ?st) = ui ?st @ c2" "set c2 \<subseteq> abort_ui"
    by blast
  have f: "fold (resume env r) (rejections (k # ks)) st = fold (resume env r) (rejections ks) ?st"
    by (simp add: rejections_def)
  have flt: "filter (\<lambda>p. fst p \<notin> set ks) (filter (\<lambda>p. fst p \<noteq> k) (awaiting st))
               = filter (\<lambda>p. fst p \<notin> set (k # ks)) (awaiting st)"
    by (rule filter_filter_notin)
  have "ui (fold (resume env r) (rejections ks) ?st) = ui st @ (c1 @ c2) \<and> set (c1 @ c2) \<subseteq> abort_ui"
    using one rest by simp
  then have "\<exists>calls. ui (fold (resume env r) (rejections ks) ?st) = ui st @ calls \<and> set calls \<subseteq> abort_ui"
    by blast
  then show ?case
    unfolding f using one rest flt by simp
qed

lemma microtasks_none: "n = length (trace (svgo st)) \<Longrightarrow> microtasks env r n st = st"
  by (simp add: microtasks_def)

lemma microtasks_new:
  "trace (svgo st) = old @ new \<Longrightarrow> n = length old
   \<Longrightarrow> microtasks env r n st = fold (resume env r) (settlements new) st"
  by (simp add: microtasks_def)

lemma consistent_cong:
  "consistent st \<Longrightarrow> svgo st' = svgo st \<Longrightarrow> awaiting st' = awaiting st
   \<Longrightarrow> latestCompressJobId st' = latestCompressJobId st \<Longrightarrow> consistent st'"
  by (simp add: consistent_def suspended_def)

lemma suspended_filter:
  "length (filter is_pass (map snd (filter P xs))) \<le> length (filter is_pass (map snd xs))"
  by (induction xs) auto

lemma filter_awaiting_all:
  "fst ` set xs \<subseteq> set ks \<Longrightarrow> filter (\<lambda>p. fst p \<notin> set ks) xs = []"
  by (induction xs) auto

text \<open>
  After a piece of code that calls the messenger as \<open>continues\<close> says, the microtasks
  end every activation whose request \<open>abort\<close> has rejected, and nothing else.
\<close>

lemma after_continuation:
  assumes c: "consistent st" and k: "continues st st'"
  shows "consistent (microtasks env r (length (trace (svgo st))) st') \<and>
         svgo (microtasks env r (length (trace (svgo st))) st') = svgo st' \<and>
         latestCompressJobId (microtasks env r (length (trace (svgo st))) st') = latestCompressJobId st' \<and>
         cache (microtasks env r (length (trace (svgo st))) st') = cache st' \<and>
         inputItem (microtasks env r (length (trace (svgo st))) st') = inputItem st' \<and>
         (\<exists>calls. ui (microtasks env r (length (trace (svgo st))) st') = ui st' @ calls \<and>
                   set calls \<subseteq> abort_ui) \<and>
         (awaiting (microtasks env r (length (trace (svgo st))) st') = awaiting st \<and>
            svgo st' = svgo st \<and> awaiting st' = awaiting st \<or>
          awaiting (microtasks env r (length (trace (svgo st))) st') = [] \<and>
            svgo st' = abort (svgo st) \<and> awaiting st' = awaiting st \<or>
          (\<exists>t s a. awaiting (microtasks env r (length (trace (svgo st))) st')
                      = [(Suc (requestId (svgo st)), a)] \<and>
                    awaiting st' = awaiting st @ [(Suc (requestId (svgo st)), a)] \<and>
                    svgo st' = snd (process t s (svgo st)) \<and>
                    is_pass a \<and> thisJobId a = latestCompressJobId st'))"
proof -
  let ?n = "length (trace (svgo st))"
  let ?P = "pending (svgo st)"
  from c have d: "distinct ?P" and fresh: "\<forall>k\<in>set ?P. k \<le> requestId (svgo st)"
    and sub: "fst ` set (awaiting st) \<subseteq> set ?P"
    by (simp_all add: consistent_def)
  from k consider
      (same) "svgo st' = svgo st" "awaiting st' = awaiting st"
        "latestCompressJobId st' = latestCompressJobId st"
    | (aborted) "svgo st' = abort (svgo st)" "awaiting st' = awaiting st"
    | (processed) t s a where "svgo st' = snd (process t s (svgo st))"
        "awaiting st' = awaiting st @ [(fst (process t s (svgo st)), a)]"
        "is_pass a" "thisJobId a = latestCompressJobId st'"
    unfolding continues_def by blast
  then show ?thesis
  proof cases
    case same
    have m: "microtasks env r ?n st' = st'"
      by (rule microtasks_none) (simp add: same)
    have "consistent st'" using c same by (rule consistent_cong)
    then show ?thesis
      unfolding m using same by simp
  next
    case aborted
    from abort_shape [OF d] obtain new where
      a: "pending (abort (svgo st)) = []" "requestId (abort (svgo st)) = requestId (svgo st)"
        "trace (abort (svgo st)) = trace (svgo st) @ new" "settlements new = rejections ?P"
      by blast
    have m: "microtasks env r ?n st' = fold (resume env r) (rejections ?P) st'"
      using microtasks_new [of st' "trace (svgo st)" new ?n env r] a aborted by simp
    from sweep [of env r ?P st'] obtain calls where
      s: "svgo (fold (resume env r) (rejections ?P) st') = svgo st'"
        "latestCompressJobId (fold (resume env r) (rejections ?P) st') = latestCompressJobId st'"
        "cache (fold (resume env r) (rejections ?P) st') = cache st'"
        "inputItem (fold (resume env r) (rejections ?P) st') = inputItem st'"
        "awaiting (fold (resume env r) (rejections ?P) st') = filter (\<lambda>p. fst p \<notin> set ?P) (awaiting st')"
        "ui (fold (resume env r) (rejections ?P) st') = ui st' @ calls" "set calls \<subseteq> abort_ui"
      by blast
    have aw: "awaiting (fold (resume env r) (rejections ?P) st') = []"
      using s(5) aborted(2) filter_awaiting_all [OF sub] by simp
    have "consistent (fold (resume env r) (rejections ?P) st')"
      by (simp add: consistent_def suspended_def s(1,2) aw aborted(1) a)
    then show ?thesis
      unfolding m using s(1-4,6,7) aw aborted by auto
  next
    case processed
    let ?k = "Suc (requestId (svgo st))"
    from process_shape [OF d, of t s] obtain new where
      p: "fst (process t s (svgo st)) = ?k" "requestId (snd (process t s (svgo st))) = ?k"
        "pending (snd (process t s (svgo st))) = [?k]"
        "trace (snd (process t s (svgo st))) = trace (svgo st) @ new"
        "settlements new = rejections ?P"
      by blast
    have m: "microtasks env r ?n st' = fold (resume env r) (rejections ?P) st'"
      using microtasks_new [of st' "trace (svgo st)" new ?n env r] p processed by simp
    from sweep [of env r ?P st'] obtain calls where
      s: "svgo (fold (resume env r) (rejections ?P) st') = svgo st'"
        "latestCompressJobId (fold (resume env r) (rejections ?P) st') = latestCompressJobId st'"
        "cache (fold (resume env r) (rejections ?P) st') = cache st'"
        "inputItem (fold (resume env r) (rejections ?P) st') = inputItem st'"
        "awaiting (fold (resume env r) (rejections ?P) st') = filter (\<lambda>p. fst p \<notin> set ?P) (awaiting st')"
        "ui (fold (resume env r) (rejections ?P) st') = ui st' @ calls" "set calls \<subseteq> abort_ui"
      by blast
    have nk: "?k \<notin> set ?P" using fresh by auto
    have aw: "awaiting (fold (resume env r) (rejections ?P) st') = [(?k, a)]"
      using s(5) processed(2) filter_awaiting_all [OF sub] nk by (simp add: p)
    have "consistent (fold (resume env r) (rejections ?P) st')"
      by (simp add: consistent_def suspended_def s(1,2) aw processed(1,3,4) p)
    moreover have "awaiting st' = awaiting st @ [(?k, a)]"
      using processed(2) by (simp add: p)
    ultimately show ?thesis
      unfolding m using s(1-4,6,7) aw processed(1,3,4) by blast
  qed
qed
subsection \<open>Tasks\<close>

lemma task_SettingsChange:
  assumes "consistent st"
  shows "task env (SettingsChange s r) st
           = microtasks env r (length (trace (svgo st))) (onSettingsChange env s r st)"
proof -
  let ?st1 = "onSettingsChange env s r st"
  let ?st2 = "microtasks env r (length (trace (svgo st))) ?st1"
  from assms have d: "distinct (pending (svgo st))" by (simp add: consistent_def)
  from after_continuation [OF assms onSettingsChange_continues [OF d, of env s r], of env r]
  have "svgo ?st2 = svgo ?st1" by blast
  then have "microtasks env r (length (trace (svgo ?st1))) ?st2 = ?st2"
    by (intro microtasks_none) simp
  then show ?thesis by (simp add: task_def Let_def)
qed

lemma onInputChange_fields:
  "pending (svgo (onInputChange d s st))
     = (if Suc (requestId (svgo st)) \<in> set (pending (svgo st)) then pending (svgo st)
        else pending (svgo st) @ [Suc (requestId (svgo st))])"
  "requestId (svgo (onInputChange d s st)) = Suc (requestId (svgo st))"
  "awaiting (onInputChange d s st) = awaiting st @ [(Suc (requestId (svgo st)), Load d s)]"
  "latestCompressJobId (onInputChange d s st) = latestCompressJobId st"
  "cache (onInputChange d s st) = cache st"
  "inputItem (onInputChange d s st) = inputItem st"
  "ui (onInputChange d s st) = ui st"
  "\<exists>new. trace (svgo (onInputChange d s st)) = trace (svgo st) @ new \<and> settlements new = []
          \<and> passes new = []"
  using requestResponse_shape [of "WrapOriginal d" "svgo st"]
  by (auto simp: onInputChange_def wrapOriginal_def split: prod.splits)

lemma task_InputChange: "task env (InputChange d s) st = onInputChange d s st"
proof -
  let ?st1 = "onInputChange d s st"
  from onInputChange_fields(8) [of d s st] obtain new where
    n: "trace (svgo ?st1) = trace (svgo st) @ new" "settlements new = []"
    by blast
  have "microtasks env 0 (length (trace (svgo st))) ?st1 = ?st1"
    using microtasks_new [OF n(1), of "length (trace (svgo st))" env 0] n(2) by simp
  moreover have "microtasks env 0 (length (trace (svgo ?st1))) ?st1 = ?st1"
    by (rule microtasks_none) simp
  ultimately show ?thesis by (simp add: task_def Let_def)
qed

lemma task_Message_miss:
  assumes "\<not> (\<exists>k. msg_id m = Some k \<and> k \<noteq> 0 \<and> k \<in> set (pending (svgo st)))"
  shows "task env (Message m r) st = st\<lparr>svgo := onMessage m (svgo st)\<rparr>"
proof -
  let ?st1 = "st\<lparr>svgo := onMessage m (svgo st)\<rparr>"
  from onMessage_miss [OF assms] obtain e where
    n: "trace (svgo ?st1) = trace (svgo st) @ [e]" "settlements [e] = []"
    by auto
  have "microtasks env r (length (trace (svgo st))) ?st1 = ?st1"
    using microtasks_new [OF n(1), of "length (trace (svgo st))" env r] n(2) by simp
  moreover have "microtasks env r (length (trace (svgo ?st1))) ?st1 = ?st1"
    by (rule microtasks_none) simp
  ultimately show ?thesis by (simp add: task_def Let_def)
qed

lemma task_Message_unawaited:
  assumes "msg_id m = Some k" and "k \<noteq> 0" and "k \<in> set (pending (svgo st))"
    and "map_of (awaiting st) k = None"
  shows "task env (Message m r) st = st\<lparr>svgo := onMessage m (svgo st)\<rparr>"
proof -
  let ?st1 = "st\<lparr>svgo := onMessage m (svgo st)\<rparr>"
  from onMessage_hit [OF assms(1-3)] obtain e where
    n: "trace (svgo ?st1) = trace (svgo st) @ [e]" "settlements [e] = [(k, message_outcome m)]"
    by auto
  have "microtasks env r (length (trace (svgo st))) ?st1 = resume env r (k, message_outcome m) ?st1"
    using microtasks_new [OF n(1), of "length (trace (svgo st))" env r] n(2) by simp
  also have "\<dots> = ?st1" using assms(4) by (simp add: resume_def)
  finally have "microtasks env r (length (trace (svgo st))) ?st1 = ?st1" .
  moreover have "microtasks env r (length (trace (svgo ?st1))) ?st1 = ?st1"
    by (rule microtasks_none) simp
  ultimately show ?thesis by (simp add: task_def Let_def)
qed

lemma task_Message_hit:
  assumes "msg_id m = Some k" and "k \<noteq> 0" and "k \<in> set (pending (svgo st))"
    and "map_of (awaiting st) k = Some a"
  shows "task env (Message m r) st
           = microtasks env r (Suc (length (trace (svgo st))))
               (continue env r a (message_outcome m)
                  (st\<lparr>svgo := onMessage m (svgo st),
                      awaiting := filter (\<lambda>p. fst p \<noteq> k) (awaiting st)\<rparr>))"
proof -
  let ?st1 = "st\<lparr>svgo := onMessage m (svgo st)\<rparr>"
  from onMessage_hit [OF assms(1-3)] obtain e where
    n: "trace (svgo ?st1) = trace (svgo st) @ [e]" "settlements [e] = [(k, message_outcome m)]"
    by auto
  have "microtasks env r (length (trace (svgo st))) ?st1 = resume env r (k, message_outcome m) ?st1"
    using microtasks_new [OF n(1), of "length (trace (svgo st))" env r] n(2) by simp
  also have "\<dots> = continue env r a (message_outcome m)
                  (st\<lparr>svgo := onMessage m (svgo st),
                      awaiting := filter (\<lambda>p. fst p \<noteq> k) (awaiting st)\<rparr>)"
    using assms(4) by (simp add: resume_def)
  finally show ?thesis using n(1) by (simp add: task_def Let_def)
qed

lemma consistent_after_message:
  assumes c: "consistent st" and "msg_id m = Some k" and "k \<noteq> 0" and "k \<in> set (pending (svgo st))"
  shows "consistent (st\<lparr>svgo := onMessage m (svgo st),
                        awaiting := filter (\<lambda>p. fst p \<noteq> k) (awaiting st)\<rparr>)"
proof -
  from onMessage_hit [OF assms(2-4)]
  have h: "pending (onMessage m (svgo st)) = removeAll k (pending (svgo st))"
    "requestId (onMessage m (svgo st)) = requestId (svgo st)"
    by simp_all
  have "length (filter is_pass (map snd (filter (\<lambda>p. fst p \<noteq> k) (awaiting st))))
          \<le> length (filter is_pass (map snd (awaiting st)))"
    by (rule suspended_filter)
  with c show ?thesis
    by (auto simp: consistent_def suspended_def h distinct_removeAll distinct_map_filter)
qed

lemma task_consistent:
  assumes c: "consistent st"
  shows "consistent (task env ev st)"
proof (cases ev)
  case (SettingsChange s r)
  from c have d: "distinct (pending (svgo st))" by (simp add: consistent_def)
  from after_continuation [OF c onSettingsChange_continues [OF d, of env s r], of env r]
  show ?thesis
    by (simp add: SettingsChange task_SettingsChange [OF c])
next
  case (InputChange d s)
  from c show ?thesis
    by (auto simp: InputChange task_InputChange consistent_def suspended_def onInputChange_fields)
next
  case (Message m r)
  show ?thesis
  proof (cases "\<exists>k. msg_id m = Some k \<and> k \<noteq> 0 \<and> k \<in> set (pending (svgo st))")
    case False
    with c onMessage_miss [OF False] show ?thesis
      by (auto simp: Message task_Message_miss consistent_def suspended_def)
  next
    case True
    then obtain k where k: "msg_id m = Some k" "k \<noteq> 0" "k \<in> set (pending (svgo st))"
      by blast
    let ?sta = "st\<lparr>svgo := onMessage m (svgo st),
                    awaiting := filter (\<lambda>p. fst p \<noteq> k) (awaiting st)\<rparr>"
    have ca: "consistent ?sta" by (rule consistent_after_message [OF c k])
    show ?thesis
    proof (cases "map_of (awaiting st) k")
      case None
      then have "k \<notin> fst ` set (awaiting st)" by (simp add: map_of_eq_None_iff)
      then have "filter (\<lambda>p. fst p \<noteq> k) (awaiting st) = awaiting st"
        by (auto simp: filter_id_conv)
      with ca show ?thesis
        by (simp add: Message task_Message_unawaited [OF k None] consistent_def suspended_def)
    next
      case (Some a)
      then have "(k, a) \<in> set (awaiting st)" by (rule map_of_SomeD)
      with c have j: "is_pass a \<longrightarrow> thisJobId a = latestCompressJobId ?sta"
        by (auto simp: consistent_def)
      from ca have d: "distinct (pending (svgo ?sta))" by (simp add: consistent_def)
      from onMessage_hit [OF k] have len: "length (trace (svgo ?sta)) = Suc (length (trace (svgo st)))"
        by auto
      have t: "task env ev st
                 = microtasks env r (length (trace (svgo ?sta)))
                     (continue env r a (message_outcome m) ?sta)"
        unfolding Message task_Message_hit [OF k Some] len ..
      from after_continuation [OF ca continue_continues [OF d j, of env r "message_outcome m"], of env r]
      show ?thesis
        unfolding t by blast
    qed
  qed
qed

text \<open>
  Between two tasks the controller is consistent: in particular, every suspended
  \<open>_compressSvg\<close> carries the latest job id.
\<close>

lemma reachable_consistent: "reachable env st \<Longrightarrow> consistent st"
proof (induction rule: reachable.induct)
  case start
  show ?case
    by (simp add: consistent_def suspended_def new_controller_def new_svgo_def)
next
  case (step st ev)
  then show ?case by (simp add: task_consistent)
qed



subsection \<open>What a task adds to the log\<close>

lemma settlements_Reject: "(k, Inl e) \<in> set (settlements tr) \<longleftrightarrow> Reject k e \<in> set tr"
  by (induction tr rule: settlements.induct) auto

lemma requested_new:
  "trace (svgo (task env ev st)) = trace (svgo st) @ new \<Longrightarrow> requested env ev st = passes new"
  by (simp add: requested_def)

lemma single:
  "length (filter Q xs) \<le> 1 \<Longrightarrow> x \<in> set xs \<Longrightarrow> Q x \<Longrightarrow> y \<in> set xs \<Longrightarrow> Q y \<Longrightarrow> x = y"
proof (induction xs)
  case Nil
  then show ?case by simp
next
  case (Cons z zs)
  show ?case
  proof (cases "Q z")
    case True
    with Cons.prems(1) have "filter Q zs = []" by simp
    then have "\<forall>u\<in>set zs. \<not> Q u" by (simp add: filter_empty_conv)
    with Cons.prems(2-5) show ?thesis by auto
  next
    case False
    with Cons show ?thesis by auto
  qed
qed

text \<open>When the request of the suspended \<open>_compressSvg\<close> is settled, none is suspended.\<close>

lemma suspended_removed:
  assumes c: "consistent st" and a: "(k, a) \<in> set (awaiting st)" and p: "is_pass a"
  shows "filter is_pass (map snd (filter (\<lambda>p. fst p \<noteq> k) (awaiting st))) = []"
proof -
  from c have one: "length (filter (\<lambda>p. is_pass (snd p)) (awaiting st)) \<le> 1"
    by (simp add: consistent_def suspended_def filter_map comp_def)
  have "\<not> is_pass (snd q)" if q: "q \<in> set (awaiting st)" "fst q \<noteq> k" for q
  proof
    assume "is_pass (snd q)"
    with single [OF one a _ q(1)] p have "(k, a) = q" by simp
    with q(2) show False by auto
  qed
  then show ?thesis by (auto simp: filter_empty_conv)
qed

lemma suspended_kept:
  "set (filter is_pass (map snd (filter P xs))) \<subseteq> set (filter is_pass (map snd xs))"
  by auto

text \<open>The \<open>finally\<close> block of a suspended \<open>_compressSvg\<close> whose request \<open>abort\<close> has rejected.\<close>

lemma sweep_done:
  assumes "distinct (map fst (awaiting st))" and "(k, a) \<in> set (awaiting st)" and "is_pass a"
    and "k \<in> set ks"
  shows "Done \<in> set (drop (length (ui st)) (ui (fold (resume env r) (rejections ks) st)))"
  using assms
proof (induction ks arbitrary: st)
  case Nil
  then show ?case by simp
next
  case (Cons k' ks)
  let ?st1 = "resume env r (k', Inl AbortErr) st"
  have f: "fold (resume env r) (rejections (k' # ks)) st = fold (resume env r) (rejections ks) ?st1"
    by (simp add: rejections_def)
  from resume_rejected [of env r k' st] obtain c1 where
    one: "awaiting ?st1 = filter (\<lambda>p. fst p \<noteq> k') (awaiting st)" "ui ?st1 = ui st @ c1"
    by blast
  from sweep [of env r ks ?st1] obtain c2 where
    rest: "ui (fold (resume env r) (rejections ks) ?st1) = ui ?st1 @ c2"
    by blast
  show ?case
  proof (cases "k' = k")
    case True
    from Cons.prems(1,2) have "map_of (awaiting st) k = Some a" by (rule map_of_is_SomeI)
    with Cons.prems(3) True have "ui ?st1 = ui st @ [Done]"
      by (cases a) (simp_all add: resume_def process_result_def)
    then show ?thesis
      unfolding f rest by simp
  next
    case False
    with Cons.prems(2,4) have in1: "(k, a) \<in> set (awaiting ?st1)" and ks: "k \<in> set ks"
      by (simp_all add: one(1))
    from Cons.prems(1) have d1: "distinct (map fst (awaiting ?st1))"
      by (simp add: one(1) distinct_map_filter)
    from Cons.IH [OF d1 in1 Cons.prems(3) ks]
    have "Done \<in> set (drop (length (ui ?st1)) (ui (fold (resume env r) (rejections ks) ?st1)))" .
    then show ?thesis
      unfolding f rest by (simp add: one(2))
  qed
qed

text \<open>The microtasks after \<open>abort\<close> and after \<open>process\<close>.\<close>

lemma micro_abort:
  assumes c: "consistent st" and sv: "svgo st' = abort (svgo st)" and aw: "awaiting st' = awaiting st"
  shows "svgo (microtasks env r (length (trace (svgo st))) st') = svgo st'"
    and "latestCompressJobId (microtasks env r (length (trace (svgo st))) st') = latestCompressJobId st'"
    and "cache (microtasks env r (length (trace (svgo st))) st') = cache st'"
    and "inputItem (microtasks env r (length (trace (svgo st))) st') = inputItem st'"
    and "awaiting (microtasks env r (length (trace (svgo st))) st') = []"
    and "\<exists>calls. ui (microtasks env r (length (trace (svgo st))) st') = ui st' @ calls \<and>
                 set calls \<subseteq> abort_ui"
    and "(k0, a0) \<in> set (awaiting st) \<Longrightarrow> is_pass a0
         \<Longrightarrow> Done \<in> set (drop (length (ui st'))
                          (ui (microtasks env r (length (trace (svgo st))) st')))"
proof -
  let ?n = "length (trace (svgo st))"
  let ?P = "pending (svgo st)"
  from c have d: "distinct ?P" and sub: "fst ` set (awaiting st) \<subseteq> set ?P"
    by (simp_all add: consistent_def)
  from abort_shape [OF d] obtain new where
    a: "trace (abort (svgo st)) = trace (svgo st) @ new" "settlements new = rejections ?P"
    by blast
  have m: "microtasks env r ?n st' = fold (resume env r) (rejections ?P) st'"
    using microtasks_new [of st' "trace (svgo st)" new ?n env r] a sv by simp
  from sweep [of env r ?P st'] obtain calls where
    s: "svgo (fold (resume env r) (rejections ?P) st') = svgo st'"
      "latestCompressJobId (fold (resume env r) (rejections ?P) st') = latestCompressJobId st'"
      "cache (fold (resume env r) (rejections ?P) st') = cache st'"
      "inputItem (fold (resume env r) (rejections ?P) st') = inputItem st'"
      "awaiting (fold (resume env r) (rejections ?P) st') = filter (\<lambda>p. fst p \<notin> set ?P) (awaiting st')"
      "ui (fold (resume env r) (rejections ?P) st') = ui st' @ calls" "set calls \<subseteq> abort_ui"
    by blast
  show "svgo (microtasks env r ?n st') = svgo st'" unfolding m by (rule s(1))
  show "latestCompressJobId (microtasks env r ?n st') = latestCompressJobId st'"
    unfolding m by (rule s(2))
  show "cache (microtasks env r ?n st') = cache st'" unfolding m by (rule s(3))
  show "inputItem (microtasks env r ?n st') = inputItem st'" unfolding m by (rule s(4))
  show "awaiting (microtasks env r ?n st') = []"
    unfolding m s(5) aw by (rule filter_awaiting_all [OF sub])
  show "\<exists>calls. ui (microtasks env r ?n st') = ui st' @ calls \<and> set calls \<subseteq> abort_ui"
    unfolding m using s(6,7) by blast
  show "Done \<in> set (drop (length (ui st')) (ui (microtasks env r ?n st')))"
    if a0: "(k0, a0) \<in> set (awaiting st)" "is_pass a0"
  proof -
    from c have "distinct (map fst (awaiting st'))" by (simp add: consistent_def aw)
    moreover from a0(1) have "(k0, a0) \<in> set (awaiting st')" by (simp add: aw)
    moreover from a0(1) sub have "k0 \<in> set ?P" by force
    ultimately show ?thesis
      unfolding m using a0(2) by (intro sweep_done)
  qed
qed

lemma micro_process:
  assumes c: "consistent st" and sv: "svgo st' = snd (process t s (svgo st))"
    and aw: "awaiting st' = awaiting st @ [(fst (process t s (svgo st)), a)]"
  shows "svgo (microtasks env r (length (trace (svgo st))) st') = svgo st'"
    and "latestCompressJobId (microtasks env r (length (trace (svgo st))) st') = latestCompressJobId st'"
    and "cache (microtasks env r (length (trace (svgo st))) st') = cache st'"
    and "inputItem (microtasks env r (length (trace (svgo st))) st') = inputItem st'"
    and "awaiting (microtasks env r (length (trace (svgo st))) st') = [(Suc (requestId (svgo st)), a)]"
    and "\<exists>calls. ui (microtasks env r (length (trace (svgo st))) st') = ui st' @ calls \<and>
                 set calls \<subseteq> abort_ui"
    and "(k0, a0) \<in> set (awaiting st) \<Longrightarrow> is_pass a0
         \<Longrightarrow> Done \<in> set (drop (length (ui st'))
                          (ui (microtasks env r (length (trace (svgo st))) st')))"
proof -
  let ?n = "length (trace (svgo st))"
  let ?P = "pending (svgo st)"
  let ?k = "Suc (requestId (svgo st))"
  from c have d: "distinct ?P" and fresh: "\<forall>k\<in>set ?P. k \<le> requestId (svgo st)"
    and sub: "fst ` set (awaiting st) \<subseteq> set ?P"
    by (simp_all add: consistent_def)
  from process_shape [OF d, of t s] obtain new where
    p: "fst (process t s (svgo st)) = ?k"
      "trace (snd (process t s (svgo st))) = trace (svgo st) @ new"
      "settlements new = rejections ?P"
    by blast
  have m: "microtasks env r ?n st' = fold (resume env r) (rejections ?P) st'"
    using microtasks_new [of st' "trace (svgo st)" new ?n env r] p sv by simp
  from sweep [of env r ?P st'] obtain calls where
    s: "svgo (fold (resume env r) (rejections ?P) st') = svgo st'"
      "latestCompressJobId (fold (resume env r) (rejections ?P) st') = latestCompressJobId st'"
      "cache (fold (resume env r) (rejections ?P) st') = cache st'"
      "inputItem (fold (resume env r) (rejections ?P) st') = inputItem st'"
      "awaiting (fold (resume env r) (rejections ?P) st') = filter (\<lambda>p. fst p \<notin> set ?P) (awaiting st')"
      "ui (fold (resume env r) (rejections ?P) st') = ui st' @ calls" "set calls \<subseteq> abort_ui"
    by blast
  have nk: "?k \<notin> set ?P" using fresh by auto
  show "svgo (microtasks env r ?n st') = svgo st'" unfolding m by (rule s(1))
  show "latestCompressJobId (microtasks env r ?n st') = latestCompressJobId st'"
    unfolding m by (rule s(2))
  show "cache (microtasks env r ?n st') = cache st'" unfolding m by (rule s(3))
  show "inputItem (microtasks env r ?n st') = inputItem st'" unfolding m by (rule s(4))
  show "awaiting (microtasks env r ?n st') = [(?k, a)]"
    unfolding m s(5) aw using filter_awaiting_all [OF sub] nk by (simp add: p(1))
  show "\<exists>calls. ui (microtasks env r ?n st') = ui st' @ calls \<and> set calls \<subseteq> abort_ui"
    unfolding m using s(6,7) by blast
  show "Done \<in> set (drop (length (ui st')) (ui (microtasks env r ?n st')))"
    if a0: "(k0, a0) \<in> set (awaiting st)" "is_pass a0"
  proof -
    from c sub nk have "distinct (map fst (awaiting st'))"
      by (auto simp: consistent_def aw p(1))
    moreover from a0(1) have "(k0, a0) \<in> set (awaiting st')" by (simp add: aw)
    moreover from a0(1) sub have "k0 \<in> set ?P" by force
    ultimately show ?thesis
      unfolding m using a0(2) by (intro sweep_done)
  qed
qed

lemma micro_same:
  "svgo st' = svgo st \<Longrightarrow> microtasks env r (length (trace (svgo st))) st' = st'"
  by (rule microtasks_none) simp

subsection \<open>The start of a cycle\<close>


lemma compressSvg_try_start:
  "(case inputItem st0 of
      None \<Rightarrow> []
    | Some file \<Rightarrow> (case cleanup env s (svg_text file) of Inl e \<Rightarrow> [] | Inr t \<Rightarrow> [(s, t)])) = [] \<and>
   svgo (compressSvg_try env s r st0) = svgo st0 \<and>
   awaiting (compressSvg_try env s r st0) = awaiting st0 \<or>
   (\<exists>t. (case inputItem st0 of
           None \<Rightarrow> []
         | Some file \<Rightarrow> (case cleanup env s (svg_text file) of Inl e \<Rightarrow> [] | Inr t \<Rightarrow> [(s, t)]))
          = [(s, t)] \<and>
        svgo (compressSvg_try env s r st0) = snd (process t s (svgo st0)) \<and>
        awaiting (compressSvg_try env s r st0)
          = awaiting st0 @ [(fst (process t s (svgo st0)), Pass1 r s)])"
proof (cases "inputItem st0")
  case None
  then show ?thesis by (simp add: compressSvg_try_def)
next
  case (Some input)
  show ?thesis
  proof (cases "cleanup env s (svg_text input)")
    case (Inl e)
    with Some show ?thesis by (simp add: compressSvg_try_def)
  next
    case (Inr t)
    with Some show ?thesis by (simp add: compressSvg_try_def split: prod.splits)
  qed
qed


lemma compressSvg_resume_start:
  assumes "latestCompressJobId st0 = r"
  shows "first_request env s (inputItem st0) (cache st0) = [] \<and>
         svgo (compressSvg_resume env s r st0) = svgo st0 \<and>
         awaiting (compressSvg_resume env s r st0) = awaiting st0 \<or>
         (\<exists>t. first_request env s (inputItem st0) (cache st0) = [(s, t)] \<and>
              svgo (compressSvg_resume env s r st0) = snd (process t s (svgo st0)) \<and>
              awaiting (compressSvg_resume env s r st0)
                = awaiting st0 @ [(fst (process t s (svgo st0)), Pass1 r s)])"
proof (cases "truthy (options s ''original'')")
  case True
  with assms show ?thesis by (simp add: compressSvg_resume_def first_request_def)
next
  case False
  show ?thesis
  proof (cases "match (fingerprint s) (cache st0)")
    case (Some cacheMatch)
    with False assms show ?thesis by (simp add: compressSvg_resume_def first_request_def)
  next
    case None
    from compressSvg_try_start [where ?st0.0 = "call_ui Working st0" and env = env and s = s and r = r]
      False None assms
    show ?thesis by (simp add: compressSvg_resume_def first_request_def)
  qed
qed


lemma compressSvg_try_calls:
  "ui (compressSvg_try env s r x)
     = ui x @ ui (compressSvg_try env s r'
                    \<lparr>svgo = v, inputItem = inputItem x, cache = c, latestCompressJobId = j,
                     awaiting = w, ui = []\<rparr>)"
proof (cases "inputItem x")
  case None
  then show ?thesis by (simp add: compressSvg_try_def compressSvg_catch_def call_ui_def)
next
  case (Some input)
  show ?thesis
  proof (cases "cleanup env s (svg_text input)")
    case (Inl e)
    with Some show ?thesis by (simp add: compressSvg_try_def compressSvg_catch_def call_ui_def)
  next
    case (Inr t)
    with Some show ?thesis by (simp add: compressSvg_try_def split: prod.splits)
  qed
qed

lemma resume_calls:
  assumes "latestCompressJobId x = r"
  shows "ui (compressSvg_resume env s r x) = ui x @ first_calls env s (inputItem x) (cache x)"
proof (cases "truthy (options s ''original'')")
  case True
  with assms show ?thesis by (simp add: compressSvg_resume_def first_calls_def call_ui_def)
next
  case False
  show ?thesis
  proof (cases "match (fingerprint s) (cache x)")
    case (Some cacheMatch)
    with False assms show ?thesis
      by (simp add: compressSvg_resume_def first_calls_def call_ui_def)
  next
    case None
    have "ui (compressSvg_try env s r (call_ui Working x))
            = ui x @ ui (compressSvg_try env s 0
                           (call_ui Working \<lparr>svgo = new_svgo, inputItem = inputItem x, cache = cache x,
                              latestCompressJobId = 0, awaiting = [], ui = []\<rparr>))"
      using compressSvg_try_calls [of env s r "call_ui Working x" 0 new_svgo "cache x" 0 "[]"]
        compressSvg_try_calls [of env s 0 "call_ui Working \<lparr>svgo = new_svgo, inputItem = inputItem x,
            cache = cache x, latestCompressJobId = 0, awaiting = [], ui = []\<rparr>" 0 new_svgo "cache x" 0 "[]"]
      by (simp add: call_ui_def)
    with False None assms show ?thesis
      by (simp add: compressSvg_resume_def first_calls_def)
  qed
qed


text \<open>
  A call of \<open>_compressSvg\<close> in the state \<open>sta\<close>: \<open>st0\<close> is a state after the call has
  run to \<open>await svgo.abort()\<close>, and the microtasks follow the rest of the call up to
  its first \<open>await svgo.process\<close>. Every request that was pending is rejected by \<open>abort\<close>;
  whatever was suspended ends in its \<open>catch\<close> block; the new cycle requests its first
  pass or none.
\<close>

lemma cycle_start:
  fixes env r' sta s r st0
  defines "st2 \<equiv> microtasks env r' (length (trace (svgo sta))) (compressSvg_resume env s r st0)"
  assumes c: "consistent sta"
    and st0: "svgo st0 = abort (svgo sta)" "awaiting st0 = awaiting sta"
      "latestCompressJobId st0 = r"
  shows "\<exists>new. trace (svgo st2) = trace (svgo sta) @ new \<and>
               settlements new = rejections (pending (svgo sta)) \<and>
               passes new = first_request env s (inputItem st0) (cache st0)"
    and "awaiting st2 = map (\<lambda>p. (Suc (requestId (svgo sta)), Pass1 r s))
                          (first_request env s (inputItem st0) (cache st0))"
    and "latestCompressJobId st2 = r" and "cache st2 = cache st0" and "inputItem st2 = inputItem st0"
    and "\<exists>quiet. ui st2 = ui st0 @ first_calls env s (inputItem st0) (cache st0) @ quiet \<and>
            set quiet \<subseteq> abort_ui \<and>
            ((\<exists>k a. (k, a) \<in> set (awaiting sta) \<and> is_pass a) \<longrightarrow> Done \<in> set quiet)"
    and "svgo st2 = svgo (compressSvg_resume env s r st0)"
    and "requestId (svgo st2) \<le> Suc (requestId (svgo sta))"
    and "set (pending (svgo st2)) \<subseteq> {Suc (requestId (svgo sta))}"
proof -
  let ?st1 = "compressSvg_resume env s r st0"
  let ?first = "first_request env s (inputItem st0) (cache st0)"
  from c have d: "distinct (pending (svgo sta))" by (simp add: consistent_def)
  have mine: "ui ?st1 = ui st0 @ first_calls env s (inputItem st0) (cache st0)"
    by (rule resume_calls [OF st0(3)])
  from compressSvg_resume_start [OF st0(3), of env s] consider
      (none) "?first = []" "svgo ?st1 = svgo st0" "awaiting ?st1 = awaiting st0"
    | (one) t where "?first = [(s, t)]" "svgo ?st1 = snd (process t s (svgo st0))"
        "awaiting ?st1 = awaiting st0 @ [(fst (process t s (svgo st0)), Pass1 r s)]"
    by blast
  then have all: "(\<exists>new. trace (svgo st2) = trace (svgo sta) @ new \<and>
               settlements new = rejections (pending (svgo sta)) \<and> passes new = ?first) \<and>
      awaiting st2 = map (\<lambda>p. (Suc (requestId (svgo sta)), Pass1 r s)) ?first \<and>
      latestCompressJobId st2 = r \<and> cache st2 = cache st0 \<and> inputItem st2 = inputItem st0 \<and>
      (\<exists>quiet. ui st2 = ui ?st1 @ quiet \<and> set quiet \<subseteq> abort_ui \<and>
         ((\<exists>k a. (k, a) \<in> set (awaiting sta) \<and> is_pass a) \<longrightarrow> Done \<in> set quiet)) \<and>
      svgo st2 = svgo ?st1 \<and> requestId (svgo st2) \<le> Suc (requestId (svgo sta)) \<and>
      set (pending (svgo st2)) \<subseteq> {Suc (requestId (svgo sta))}"
  proof cases
    case none
    have sv: "svgo ?st1 = abort (svgo sta)" and aw: "awaiting ?st1 = awaiting sta"
      by (simp_all add: none st0)
    note m = micro_abort [OF c sv aw, where env = env and r = r', folded st2_def]
    from abort_shape [OF d] obtain new where
      a: "pending (abort (svgo sta)) = []" "requestId (abort (svgo sta)) = requestId (svgo sta)"
        "trace (abort (svgo sta)) = trace (svgo sta) @ new"
        "settlements new = rejections (pending (svgo sta))" "passes new = []"
      by blast
    have "\<exists>new. trace (svgo st2) = trace (svgo sta) @ new \<and>
               settlements new = rejections (pending (svgo sta)) \<and> passes new = ?first"
      using a by (simp add: m(1) sv none(1))
    moreover have "awaiting st2 = map (\<lambda>p. (Suc (requestId (svgo sta)), Pass1 r s)) ?first"
      by (simp add: m(5) none(1))
    moreover have "\<exists>quiet. ui st2 = ui ?st1 @ quiet \<and> set quiet \<subseteq> abort_ui \<and>
         ((\<exists>k a. (k, a) \<in> set (awaiting sta) \<and> is_pass a) \<longrightarrow> Done \<in> set quiet)"
    proof -
      from m(6) obtain quiet where q: "ui st2 = ui ?st1 @ quiet" "set quiet \<subseteq> abort_ui"
        by blast
      have "Done \<in> set quiet" if "(k, a) \<in> set (awaiting sta)" "is_pass a" for k a
        using m(7) [OF that] by (simp add: q(1))
      with q show ?thesis by blast
    qed
    ultimately show ?thesis
      by (simp add: m(1-4) sv a st0(3))
  next
    case one
    have sv: "svgo ?st1 = snd (process t s (svgo sta))"
      and aw: "awaiting ?st1 = awaiting sta @ [(fst (process t s (svgo sta)), Pass1 r s)]"
      by (simp_all add: one st0 process_abort [OF d])
    note m = micro_process [OF c sv aw, where env = env and r = r', folded st2_def]
    from process_shape [OF d, of t s] obtain new where
      p: "requestId (snd (process t s (svgo sta))) = Suc (requestId (svgo sta))"
        "pending (snd (process t s (svgo sta))) = [Suc (requestId (svgo sta))]"
        "trace (snd (process t s (svgo sta))) = trace (svgo sta) @ new"
        "settlements new = rejections (pending (svgo sta))" "passes new = [(s, t)]"
      by blast
    have "\<exists>new. trace (svgo st2) = trace (svgo sta) @ new \<and>
               settlements new = rejections (pending (svgo sta)) \<and> passes new = ?first"
      using p by (simp add: m(1) sv one(1))
    moreover have "awaiting st2 = map (\<lambda>p. (Suc (requestId (svgo sta)), Pass1 r s)) ?first"
      by (simp add: m(5) one(1))
    moreover have "\<exists>quiet. ui st2 = ui ?st1 @ quiet \<and> set quiet \<subseteq> abort_ui \<and>
         ((\<exists>k a. (k, a) \<in> set (awaiting sta) \<and> is_pass a) \<longrightarrow> Done \<in> set quiet)"
    proof -
      from m(6) obtain quiet where q: "ui st2 = ui ?st1 @ quiet" "set quiet \<subseteq> abort_ui"
        by blast
      have "Done \<in> set quiet" if "(k, a) \<in> set (awaiting sta)" "is_pass a" for k a
        using m(7) [OF that] by (simp add: q(1))
      with q show ?thesis by blast
    qed
    ultimately show ?thesis
      by (simp add: m(1-4) sv p st0(3))
  qed
  from all show "\<exists>new. trace (svgo st2) = trace (svgo sta) @ new \<and>
               settlements new = rejections (pending (svgo sta)) \<and> passes new = ?first"
    by blast
  from all show "awaiting st2 = map (\<lambda>p. (Suc (requestId (svgo sta)), Pass1 r s)) ?first"
    by blast
  from all show "latestCompressJobId st2 = r" by blast
  from all show "cache st2 = cache st0" by blast
  from all show "inputItem st2 = inputItem st0" by blast
  from all obtain quiet where "ui st2 = ui ?st1 @ quiet" "set quiet \<subseteq> abort_ui"
    "(\<exists>k a. (k, a) \<in> set (awaiting sta) \<and> is_pass a) \<longrightarrow> Done \<in> set quiet"
    by blast
  with mine have "ui st2 = ui st0 @ first_calls env s (inputItem st0) (cache st0) @ quiet \<and>
            set quiet \<subseteq> abort_ui \<and>
            ((\<exists>k a. (k, a) \<in> set (awaiting sta) \<and> is_pass a) \<longrightarrow> Done \<in> set quiet)"
    by simp
  then show "\<exists>quiet. ui st2 = ui st0 @ first_calls env s (inputItem st0) (cache st0) @ quiet \<and>
            set quiet \<subseteq> abort_ui \<and>
            ((\<exists>k a. (k, a) \<in> set (awaiting sta) \<and> is_pass a) \<longrightarrow> Done \<in> set quiet)"
    by blast
  from all show "svgo st2 = svgo ?st1" by blast
  from all show "requestId (svgo st2) \<le> Suc (requestId (svgo sta))" by blast
  from all show "set (pending (svgo st2)) \<subseteq> {Suc (requestId (svgo sta))}" by blast
qed

subsection \<open>The tasks that start a cycle\<close>

lemma calls_Message:
  assumes "calls_compressSvg (Message m r) st = Some s"
  shows "\<exists>l d file. msg_id m = Some l \<and> l \<noteq> 0 \<and> l \<in> set (pending (svgo st)) \<and>
           map_of (awaiting st) l = Some (Load d s) \<and>
           wrapOriginal_result d (message_outcome m) = Inr file"
  using assms
  by (auto split: option.splits if_splits activation.splits sum.splits)

lemma first_request_cases:
  "first_request env s input c = [] \<or> (\<exists>t. first_request env s input c = [(s, t)])"
  by (simp add: first_request_def split: option.splits sum.splits)

lemma match_purge [simp]: "match f (purge c) = None"
  by (simp add: match_def purge_def)

lemma awaited_key:
  assumes c: "consistent st" and a: "(k, a) \<in> set (awaiting st)"
  shows "map_of (awaiting st) k = Some a" and "k \<in> set (pending (svgo st))" and "k \<noteq> 0"
    and "k \<le> requestId (svgo st)"
proof -
  from c have d: "distinct (map fst (awaiting st))" by (simp add: consistent_def)
  from d a show "map_of (awaiting st) k = Some a" by (rule map_of_is_SomeI)
  from c a show kp: "k \<in> set (pending (svgo st))" by (force simp: consistent_def)
  from c kp show "k \<noteq> 0" by (auto simp: consistent_def)
  from c kp show "k \<le> requestId (svgo st)" by (simp add: consistent_def)
qed

text \<open>The task of a message that fulfils the request of a suspended \<open>_onInputChange\<close>.\<close>

lemma load_reduce:
  assumes c: "consistent st" and m: "msg_id m = Some l" and l0: "l \<noteq> 0"
    and lp: "l \<in> set (pending (svgo st))" and look: "map_of (awaiting st) l = Some (Load d s)"
    and w: "wrapOriginal_result d (message_outcome m) = Inr file"
  shows "\<exists>sta st0 e.
           task env (Message m r) st
             = microtasks env r (length (trace (svgo sta))) (compressSvg_resume env s r st0) \<and>
           consistent sta \<and> svgo st0 = abort (svgo sta) \<and> awaiting st0 = awaiting sta \<and>
           latestCompressJobId st0 = r \<and> inputItem st0 = Some file \<and>
           cache st0 = purge (cache st) \<and> ui st0 = ui st @ [ResetOutput] \<and>
           trace (svgo sta) = trace (svgo st) @ [e] \<and> passes [e] = [] \<and>
           pending (svgo sta) = removeAll l (pending (svgo st)) \<and>
           requestId (svgo sta) = requestId (svgo st) \<and>
           awaiting sta = filter (\<lambda>p. fst p \<noteq> l) (awaiting st)"
proof -
  let ?sta = "st\<lparr>svgo := onMessage m (svgo st),
                  awaiting := filter (\<lambda>p. fst p \<noteq> l) (awaiting st)\<rparr>"
  let ?sta' = "?sta\<lparr>inputItem := Some file, cache := purge (cache ?sta)\<rparr>"
  let ?st0 = "call_ui ResetOutput (compressSvg_call r ?sta')"
  from onMessage_hit [OF m l0 lp] obtain e where
    h: "pending (onMessage m (svgo st)) = removeAll l (pending (svgo st))"
      "requestId (onMessage m (svgo st)) = requestId (svgo st)"
      "trace (onMessage m (svgo st)) = trace (svgo st) @ [e]" "passes [e] = []"
    by blast
  have ca: "consistent ?sta" by (rule consistent_after_message [OF c m l0 lp])
  have ca': "consistent ?sta'" by (rule consistent_cong [OF ca]) simp_all
  have len: "length (trace (svgo ?sta')) = Suc (length (trace (svgo st)))"
    by (simp add: h)
  have k: "continue env r (Load d s) (message_outcome m) ?sta = compressSvg_resume env s r ?st0"
    by (simp add: w onInputChange_loaded_def)
  have t: "task env (Message m r) st
             = microtasks env r (length (trace (svgo ?sta'))) (compressSvg_resume env s r ?st0)"
    unfolding task_Message_hit [OF m l0 lp look] k len ..
  have "task env (Message m r) st
             = microtasks env r (length (trace (svgo ?sta'))) (compressSvg_resume env s r ?st0) \<and>
           consistent ?sta' \<and> svgo ?st0 = abort (svgo ?sta') \<and> awaiting ?st0 = awaiting ?sta' \<and>
           latestCompressJobId ?st0 = r \<and> inputItem ?st0 = Some file \<and>
           cache ?st0 = purge (cache st) \<and> ui ?st0 = ui st @ [ResetOutput] \<and>
           trace (svgo ?sta') = trace (svgo st) @ [e] \<and> passes [e] = [] \<and>
           pending (svgo ?sta') = removeAll l (pending (svgo st)) \<and>
           requestId (svgo ?sta') = requestId (svgo st) \<and>
           awaiting ?sta' = filter (\<lambda>p. fst p \<noteq> l) (awaiting st)"
    using t ca' h by simp
  then show ?thesis by blast
qed

text \<open>
  A task that starts a cycle: every request that was pending is rejected with the
  AbortError, and what was suspended ends in its \<open>catch\<close> block; the new cycle shows the
  input or a cached file, or requests its first pass, and is the only one suspended
  afterwards.
\<close>

lemma start_task:
  assumes c: "consistent st" and s: "calls_compressSvg ev st = Some s"
  shows "\<exists>new. trace (svgo (task env ev st)) = trace (svgo st) @ new \<and>
           passes new = first_request env s (inputItem (task env ev st)) (cache (task env ev st)) \<and>
           (\<forall>k a. (k, a) \<in> set (awaiting st) \<and> is_pass a \<longrightarrow> Reject k AbortErr \<in> set new)"
    and "awaiting (task env ev st)
           = map (\<lambda>p. (Suc (requestId (svgo st)), Pass1 (random_of ev) s))
               (first_request env s (inputItem (task env ev st)) (cache (task env ev st)))"
    and "latestCompressJobId (task env ev st) = random_of ev"
    and "\<exists>pre quiet.
           ui (task env ev st)
             = ui st @ pre
                 @ first_calls env s (inputItem (task env ev st)) (cache (task env ev st)) @ quiet \<and>
           set pre \<subseteq> {ResetOutput} \<and> set quiet \<subseteq> abort_ui \<and>
           ((\<exists>k a. (k, a) \<in> set (awaiting st) \<and> is_pass a) \<longrightarrow> Done \<in> set quiet)"
    and "set (pending (svgo (task env ev st))) \<subseteq> {Suc (requestId (svgo st))}"
    and "requestId (svgo (task env ev st)) \<le> Suc (requestId (svgo st))"
proof -
  let ?st' = "task env ev st"
  let ?r = "random_of ev"
  have "\<exists>sta st0 pre shown.
          ?st' = microtasks env ?r (length (trace (svgo sta))) (compressSvg_resume env s ?r st0) \<and>
          consistent sta \<and> svgo st0 = abort (svgo sta) \<and> awaiting st0 = awaiting sta \<and>
          latestCompressJobId st0 = ?r \<and> ui st0 = ui st @ shown \<and> set shown \<subseteq> {ResetOutput} \<and>
          trace (svgo sta) = trace (svgo st) @ pre \<and> passes pre = [] \<and>
          requestId (svgo sta) = requestId (svgo st) \<and>
          (\<forall>k a. (k, a) \<in> set (awaiting st) \<and> is_pass a
             \<longrightarrow> k \<in> set (pending (svgo sta)) \<and> (k, a) \<in> set (awaiting sta))"
  proof (cases ev)
    case (SettingsChange s' r)
    with s have [simp]: "s' = s" by simp
    let ?st0 = "compressSvg_call r st"
    have "?st' = microtasks env ?r (length (trace (svgo st))) (compressSvg_resume env s ?r ?st0) \<and>
          consistent st \<and> svgo ?st0 = abort (svgo st) \<and> awaiting ?st0 = awaiting st \<and>
          latestCompressJobId ?st0 = ?r \<and> ui ?st0 = ui st @ [] \<and> set [] \<subseteq> {ResetOutput} \<and>
          trace (svgo st) = trace (svgo st) @ [] \<and> passes [] = [] \<and>
          requestId (svgo st) = requestId (svgo st) \<and>
          (\<forall>k a. (k, a) \<in> set (awaiting st) \<and> is_pass a
             \<longrightarrow> k \<in> set (pending (svgo st)) \<and> (k, a) \<in> set (awaiting st))"
      using c awaited_key(2) [OF c]
      by (auto simp: SettingsChange task_SettingsChange [OF c] onSettingsChange_def)
    then show ?thesis by blast
  next
    case (InputChange d s')
    with s show ?thesis by simp
  next
    case (Message m r)
    from calls_Message [OF s [unfolded Message]] obtain l d input where
      l: "msg_id m = Some l" "l \<noteq> 0" "l \<in> set (pending (svgo st))"
        "map_of (awaiting st) l = Some (Load d s)"
        "wrapOriginal_result d (message_outcome m) = Inr input"
      by blast
    from load_reduce [OF c l, of env r] obtain sta st0 e where
      red: "task env (Message m r) st
             = microtasks env r (length (trace (svgo sta))) (compressSvg_resume env s r st0)"
        "consistent sta" "svgo st0 = abort (svgo sta)" "awaiting st0 = awaiting sta"
        "latestCompressJobId st0 = r" "ui st0 = ui st @ [ResetOutput]"
        "trace (svgo sta) = trace (svgo st) @ [e]" "passes [e] = []"
        "pending (svgo sta) = removeAll l (pending (svgo st))"
        "requestId (svgo sta) = requestId (svgo st)"
        "awaiting sta = filter (\<lambda>p. fst p \<noteq> l) (awaiting st)"
      by blast
    have kept: "k \<in> set (pending (svgo sta)) \<and> (k, a) \<in> set (awaiting sta)"
      if "(k, a) \<in> set (awaiting st)" "is_pass a" for k a
    proof -
      from awaited_key(1) [OF c that(1)] l(4) that(2) have "k \<noteq> l" by auto
      with awaited_key(2) [OF c that(1)] that(1) show ?thesis by (simp add: red(9,11))
    qed
    then have kept': "\<forall>k a. (k, a) \<in> set (awaiting st) \<and> is_pass a
                         \<longrightarrow> k \<in> set (pending (svgo sta)) \<and> (k, a) \<in> set (awaiting sta)"
      by blast
    have "?st' = microtasks env ?r (length (trace (svgo sta))) (compressSvg_resume env s ?r st0) \<and>
          consistent sta \<and> svgo st0 = abort (svgo sta) \<and> awaiting st0 = awaiting sta \<and>
          latestCompressJobId st0 = ?r \<and> ui st0 = ui st @ [ResetOutput] \<and>
          set [ResetOutput] \<subseteq> {ResetOutput} \<and>
          trace (svgo sta) = trace (svgo st) @ [e] \<and> passes [e] = [] \<and>
          requestId (svgo sta) = requestId (svgo st) \<and>
          (\<forall>k a. (k, a) \<in> set (awaiting st) \<and> is_pass a
             \<longrightarrow> k \<in> set (pending (svgo sta)) \<and> (k, a) \<in> set (awaiting sta))"
      using red(1-8,10) kept' by (simp add: Message)
    then show ?thesis by blast
  qed
  then obtain sta st0 pre shown where
    red: "?st' = microtasks env ?r (length (trace (svgo sta))) (compressSvg_resume env s ?r st0)"
      and ca: "consistent sta"
      and st0: "svgo st0 = abort (svgo sta)" "awaiting st0 = awaiting sta"
        "latestCompressJobId st0 = ?r"
      and shown: "ui st0 = ui st @ shown" "set shown \<subseteq> {ResetOutput}"
      and pre: "trace (svgo sta) = trace (svgo st) @ pre" "passes pre = []"
      and rid: "requestId (svgo sta) = requestId (svgo st)"
      and kept: "\<forall>k a. (k, a) \<in> set (awaiting st) \<and> is_pass a
                   \<longrightarrow> k \<in> set (pending (svgo sta)) \<and> (k, a) \<in> set (awaiting sta)"
    by blast
  note cs = cycle_start [OF ca st0, of env ?r s, folded red]
  from cs(1) obtain new where
    new: "trace (svgo ?st') = trace (svgo sta) @ new"
      "settlements new = rejections (pending (svgo sta))"
      "passes new = first_request env s (inputItem st0) (cache st0)"
    by blast
  have rej: "Reject k AbortErr \<in> set (pre @ new)" if "(k, a) \<in> set (awaiting st)" "is_pass a" for k a
  proof -
    from kept that have "k \<in> set (pending (svgo sta))" by blast
    then have "(k, Inl AbortErr) \<in> set (settlements new)"
      by (simp add: new(2) rejections_def)
    then show ?thesis by (simp add: settlements_Reject)
  qed
  then have rej': "\<forall>k a. (k, a) \<in> set (awaiting st) \<and> is_pass a
                        \<longrightarrow> Reject k AbortErr \<in> set (pre @ new)"
    by blast
  have "trace (svgo ?st') = trace (svgo st) @ (pre @ new) \<and>
        passes (pre @ new) = first_request env s (inputItem ?st') (cache ?st')"
    by (simp add: new pre cs(4,5))
  with rej' have "trace (svgo ?st') = trace (svgo st) @ (pre @ new) \<and>
        passes (pre @ new) = first_request env s (inputItem ?st') (cache ?st') \<and>
        (\<forall>k a. (k, a) \<in> set (awaiting st) \<and> is_pass a \<longrightarrow> Reject k AbortErr \<in> set (pre @ new))"
    by blast
  then show "\<exists>new. trace (svgo ?st') = trace (svgo st) @ new \<and>
           passes new = first_request env s (inputItem ?st') (cache ?st') \<and>
           (\<forall>k a. (k, a) \<in> set (awaiting st) \<and> is_pass a \<longrightarrow> Reject k AbortErr \<in> set new)"
    by blast
  show "awaiting ?st' = map (\<lambda>p. (Suc (requestId (svgo st)), Pass1 ?r s))
               (first_request env s (inputItem ?st') (cache ?st'))"
    by (simp add: cs(2,4,5) rid)
  show "latestCompressJobId ?st' = ?r" by (rule cs(3))
  from cs(6) obtain quiet where
    u: "ui ?st' = ui st0 @ first_calls env s (inputItem st0) (cache st0) @ quiet"
      "set quiet \<subseteq> abort_ui"
      "(\<exists>k a. (k, a) \<in> set (awaiting sta) \<and> is_pass a) \<longrightarrow> Done \<in> set quiet"
    by blast
  from u(3) kept have d: "(\<exists>k a. (k, a) \<in> set (awaiting st) \<and> is_pass a) \<longrightarrow> Done \<in> set quiet"
    by blast
  have "ui ?st' = ui st @ shown @ first_calls env s (inputItem ?st') (cache ?st') @ quiet"
    using u(1) shown(1) by (simp add: cs(4,5))
  with shown(2) u(2) d
  show "\<exists>pre quiet.
           ui ?st' = ui st @ pre @ first_calls env s (inputItem ?st') (cache ?st') @ quiet \<and>
           set pre \<subseteq> {ResetOutput} \<and> set quiet \<subseteq> abort_ui \<and>
           ((\<exists>k a. (k, a) \<in> set (awaiting st) \<and> is_pass a) \<longrightarrow> Done \<in> set quiet)"
    by blast
  from cs(9) show "set (pending (svgo ?st')) \<subseteq> {Suc (requestId (svgo st))}"
    by (simp add: rid)
  from cs(8) show "requestId (svgo ?st') \<le> Suc (requestId (svgo st))"
    by (simp add: rid)
qed

lemma start_cache:
  assumes c: "consistent st" and s: "calls_compressSvg ev st = Some s"
  shows "(\<forall>r. ev = SettingsChange s r
            \<longrightarrow> cache (task env ev st) = cache st \<and> inputItem (task env ev st) = inputItem st) \<and>
         (\<forall>m r l d input. ev = Message m r \<and> msg_id m = Some l \<and>
              map_of (awaiting st) l = Some (Load d s) \<and>
              wrapOriginal_result d (message_outcome m) = Inr input
            \<longrightarrow> cache (task env ev st) = purge (cache st) \<and> inputItem (task env ev st) = Some input)"
proof -
  have "cache (task env ev st) = cache st \<and> inputItem (task env ev st) = inputItem st"
    if ev: "ev = SettingsChange s r" for r
  proof -
    let ?st0 = "compressSvg_call r st"
    have t: "task env ev st
               = microtasks env r (length (trace (svgo st))) (compressSvg_resume env s r ?st0)"
      by (simp add: ev task_SettingsChange [OF c] onSettingsChange_def)
    have st0: "svgo ?st0 = abort (svgo st)" "awaiting ?st0 = awaiting st"
      "latestCompressJobId ?st0 = r"
      by simp_all
    from cycle_start(4,5) [OF c st0, of env r s, folded t] show ?thesis by simp
  qed
  moreover have "cache (task env ev st) = purge (cache st) \<and> inputItem (task env ev st) = Some input"
    if ev: "ev = Message m r" and l: "msg_id m = Some l" "map_of (awaiting st) l = Some (Load d s)"
      "wrapOriginal_result d (message_outcome m) = Inr input" for m r l d input
  proof -
    from calls_Message [OF s [unfolded ev]] l(1) have l0: "l \<noteq> 0" "l \<in> set (pending (svgo st))"
      by auto
    from load_reduce [OF c l(1) l0 l(2,3), of env r] obtain sta st0 where
      red: "task env (Message m r) st
             = microtasks env r (length (trace (svgo sta))) (compressSvg_resume env s r st0)"
        "consistent sta" "svgo st0 = abort (svgo sta)" "awaiting st0 = awaiting sta"
        "latestCompressJobId st0 = r" "inputItem st0 = Some input" "cache st0 = purge (cache st)"
      by blast
    from cycle_start(4,5) [OF red(2-5), of env r s, folded red(1)] red(6,7) show ?thesis
      by (simp add: ev)
  qed
  ultimately show ?thesis by blast
qed


subsection \<open>The answer to a request\<close>

text \<open>
  The task of a message that settles the request of a suspended activation: the
  activation continues, and then the microtasks run.
\<close>

lemma hit_reduce:
  assumes c: "consistent st" and m: "msg_id m = Some k" and a: "(k, a) \<in> set (awaiting st)"
  shows "task env (Message m r) st
           = microtasks env r
               (length (trace (svgo (st\<lparr>svgo := onMessage m (svgo st),
                                          awaiting := filter (\<lambda>p. fst p \<noteq> k) (awaiting st)\<rparr>))))
               (continue env r a (message_outcome m)
                  (st\<lparr>svgo := onMessage m (svgo st),
                      awaiting := filter (\<lambda>p. fst p \<noteq> k) (awaiting st)\<rparr>))"
    and "consistent (st\<lparr>svgo := onMessage m (svgo st),
                        awaiting := filter (\<lambda>p. fst p \<noteq> k) (awaiting st)\<rparr>)"
    and "\<exists>e. trace (onMessage m (svgo st)) = trace (svgo st) @ [e] \<and> passes [e] = []"
    and "requestId (onMessage m (svgo st)) = requestId (svgo st)"
proof -
  note key = awaited_key [OF c a]
  from onMessage_hit [OF m key(3,2)] obtain e where
    h: "requestId (onMessage m (svgo st)) = requestId (svgo st)"
      "trace (onMessage m (svgo st)) = trace (svgo st) @ [e]" "passes [e] = []"
    by blast
  show "task env (Message m r) st
           = microtasks env r
               (length (trace (svgo (st\<lparr>svgo := onMessage m (svgo st),
                                          awaiting := filter (\<lambda>p. fst p \<noteq> k) (awaiting st)\<rparr>))))
               (continue env r a (message_outcome m)
                  (st\<lparr>svgo := onMessage m (svgo st),
                      awaiting := filter (\<lambda>p. fst p \<noteq> k) (awaiting st)\<rparr>))"
    unfolding task_Message_hit [OF m key(3,2,1)] by (simp add: h)
  show "consistent (st\<lparr>svgo := onMessage m (svgo st),
                        awaiting := filter (\<lambda>p. fst p \<noteq> k) (awaiting st)\<rparr>)"
    by (rule consistent_after_message [OF c m key(3,2)])
  from h show "\<exists>e. trace (onMessage m (svgo st)) = trace (svgo st) @ [e] \<and> passes [e] = []"
    by blast
  from h show "requestId (onMessage m (svgo st)) = requestId (svgo st)" by simp
qed

text \<open>A continuation that leaves the messenger alone ends the task.\<close>

lemma hit_quiet:
  assumes c: "consistent st" and m: "msg_id m = Some k" and a: "(k, a) \<in> set (awaiting st)"
    and k: "continue env r a (message_outcome m)
              (st\<lparr>svgo := onMessage m (svgo st),
                  awaiting := filter (\<lambda>p. fst p \<noteq> k) (awaiting st)\<rparr>) = st1"
    and sv: "svgo st1 = onMessage m (svgo st)"
    and aw: "awaiting st1 = filter (\<lambda>p. fst p \<noteq> k) (awaiting st)"
  shows "task env (Message m r) st = st1"
    and "requested env (Message m r) st = []"
    and "set (suspended (task env (Message m r) st)) \<subseteq> set (suspended st)"
    and "is_pass a \<Longrightarrow> suspended (task env (Message m r) st) = []"
    and "\<exists>new. trace (svgo (task env (Message m r) st)) = trace (svgo st) @ new \<and> passes new = []"
proof -
  let ?sta = "st\<lparr>svgo := onMessage m (svgo st),
                  awaiting := filter (\<lambda>p. fst p \<noteq> k) (awaiting st)\<rparr>"
  note red = hit_reduce(1) [OF c m a, of env r] hit_reduce(2-4) [OF c m a]
  have "svgo st1 = svgo ?sta" by (simp add: sv)
  from micro_same [OF this, of env r] show t: "task env (Message m r) st = st1"
    unfolding red(1) k .
  from red(3) obtain e where
    e: "trace (onMessage m (svgo st)) = trace (svgo st) @ [e]" "passes [e] = []"
    by blast
  then have tr: "trace (svgo (task env (Message m r) st)) = trace (svgo st) @ [e]"
    by (simp add: t sv)
  from requested_new [OF tr] e(2) show "requested env (Message m r) st = []" by simp
  show "set (suspended (task env (Message m r) st)) \<subseteq> set (suspended st)"
    unfolding t suspended_def aw by (rule suspended_kept)
  show "suspended (task env (Message m r) st) = []" if "is_pass a"
    unfolding t suspended_def aw by (rule suspended_removed [OF c a that])
  from tr e(2) show "\<exists>new. trace (svgo (task env (Message m r) st)) = trace (svgo st) @ new \<and>
      passes new = []"
    by blast
qed

text \<open>A continuation that calls \<open>process\<close>: the second pass.\<close>

lemma hit_process:
  assumes c: "consistent st" and m: "msg_id m = Some k" and a: "(k, a) \<in> set (awaiting st)"
    and p: "is_pass a"
    and k: "continue env r a (message_outcome m)
              (st\<lparr>svgo := onMessage m (svgo st),
                  awaiting := filter (\<lambda>p. fst p \<noteq> k) (awaiting st)\<rparr>) = st1"
    and sv: "svgo st1 = snd (process t s (onMessage m (svgo st)))"
    and aw: "awaiting st1 = filter (\<lambda>p. fst p \<noteq> k) (awaiting st)
                              @ [(fst (process t s (onMessage m (svgo st))), b)]"
  shows "requested env (Message m r) st = [(s, t)]"
    and "awaiting (task env (Message m r) st) = [(Suc (requestId (svgo st)), b)]"
    and "cache (task env (Message m r) st) = cache st1"
    and "inputItem (task env (Message m r) st) = inputItem st1"
    and "\<exists>new. trace (svgo (task env (Message m r) st)) = trace (svgo st) @ new \<and>
               passes new = [(s, t)]"
proof -
  let ?sta = "st\<lparr>svgo := onMessage m (svgo st),
                  awaiting := filter (\<lambda>p. fst p \<noteq> k) (awaiting st)\<rparr>"
  note red = hit_reduce(1) [OF c m a, of env r] hit_reduce(2-4) [OF c m a]
  have sv': "svgo st1 = snd (process t s (svgo ?sta))"
    and aw': "awaiting st1 = awaiting ?sta @ [(fst (process t s (svgo ?sta)), b)]"
    by (simp_all add: sv aw)
  note mp = micro_process [OF red(2) sv' aw', where env = env and r = r, folded k, folded red(1)]
  from red(3) obtain e where
    e: "trace (onMessage m (svgo st)) = trace (svgo st) @ [e]" "passes [e] = []"
    by blast
  from red(2) have d: "distinct (pending (onMessage m (svgo st)))" by (simp add: consistent_def)
  from process_shape [OF d, of t s] obtain new where
    new: "trace (snd (process t s (onMessage m (svgo st)))) = trace (onMessage m (svgo st)) @ new"
      "passes new = [(s, t)]"
    by blast
  have tr: "trace (svgo (task env (Message m r) st)) = trace (svgo st) @ ([e] @ new)"
    by (simp add: mp(1) k sv new e)
  have ps: "passes ([e] @ new) = [(s, t)]"
    unfolding passes_append by (simp add: e(2) new(2))
  from requested_new [OF tr] ps show "requested env (Message m r) st = [(s, t)]" by simp
  from mp(5) show "awaiting (task env (Message m r) st) = [(Suc (requestId (svgo st)), b)]"
    by (simp add: red(4))
  from mp(3) show "cache (task env (Message m r) st) = cache st1" by (simp add: k)
  from mp(4) show "inputItem (task env (Message m r) st) = inputItem st1" by (simp add: k)
  from tr ps show "\<exists>new. trace (svgo (task env (Message m r) st)) = trace (svgo st) @ new \<and>
               passes new = [(s, t)]"
    by blast
qed

text \<open>
  A task that does not answer the suspended \<open>_compressSvg\<close> leaves the cache as it is, or
  purges it, and shows nothing but the input or a cached file.
\<close>

lemma abort_ui_shows [simp]: "UpdateForFile f c g \<notin> abort_ui"
  by (simp add: abort_ui_def)


subsection \<open>A cycle that is superseded\<close>



subsection \<open>The passes of a cycle\<close>

lemma compressSvg_finish_shows:
  "UpdateForFile (Some f) (inputItem st) (truthy (options s ''gzip''))
     \<in> set (ui (compressSvg_finish s f st))"
  by (simp add: compressSvg_finish_def Let_def split: prod.splits option.splits)

lemma compressSvg_finish_cache:
  "cache (compressSvg_finish s f st) = snd (add (fingerprint s) f (cache st))"
  by (simp add: compressSvg_finish_def Let_def split: prod.splits option.splits)

lemma compressSvg_catch_cache [simp]: "cache (compressSvg_catch e st) = cache st"
  by (simp add: compressSvg_catch_def)

lemma compressSvg_catch_calls:
  "ui (compressSvg_catch e st)
     = ui st @ (if err_name e = ''AbortError'' then [Done]
                else [HandleError (''Minifying error: '' @ err_message e), Done])"
  by (simp add: compressSvg_catch_def)

text \<open>The answer to the first pass of a cycle.\<close>

lemma answer_first:
  assumes c: "consistent st" and m: "msg_id m = Some k" and a: "(k, Pass1 j s) \<in> set (awaiting st)"
  shows "case process_result (message_outcome m) of
           Inl e \<Rightarrow>
             requested env (Message m r) st = [] \<and> suspended (task env (Message m r) st) = [] \<and>
             cache (task env (Message m r) st) = cache st \<and>
             ui (task env (Message m r) st)
               = ui st @ (if err_name e = ''AbortError'' then [Done]
                          else [HandleError (''Minifying error: '' @ err_message e), Done])
         | Inr resultFile0 \<Rightarrow>
             if cleans s then
               (case cleanup env s (svg_text resultFile0) of
                  Inl e \<Rightarrow>
                    requested env (Message m r) st = [] \<and>
                    suspended (task env (Message m r) st) = [] \<and>
                    cache (task env (Message m r) st) = cache st \<and>
                    ui (task env (Message m r) st)
                      = ui st @ (if err_name e = ''AbortError'' then [Done]
                                 else [HandleError (''Minifying error: '' @ err_message e), Done])
                | Inr svgText \<Rightarrow>
                    requested env (Message m r) st = [(s, svgText)] \<and>
                    suspended (task env (Message m r) st) = [Pass2 j s] \<and>
                    cache (task env (Message m r) st) = cache st)
             else
               requested env (Message m r) st = [] \<and> suspended (task env (Message m r) st) = [] \<and>
               cache (task env (Message m r) st) = snd (add (fingerprint s) resultFile0 (cache st)) \<and>
               UpdateForFile (Some resultFile0) (inputItem st) (truthy (options s ''gzip''))
                 \<in> set (ui (task env (Message m r) st))"
proof -
  let ?sta = "st\<lparr>svgo := onMessage m (svgo st),
                  awaiting := filter (\<lambda>p. fst p \<noteq> k) (awaiting st)\<rparr>"
  let ?st' = "task env (Message m r) st"
  have p: "is_pass (Pass1 j s)" by simp
  have caught: "requested env (Message m r) st = [] \<and> suspended ?st' = [] \<and>
                cache ?st' = cache st \<and>
                ui ?st' = ui st @ (if err_name e = ''AbortError'' then [Done]
                                   else [HandleError (''Minifying error: '' @ err_message e), Done])"
    if k: "continue env r (Pass1 j s) (message_outcome m) ?sta = compressSvg_catch e ?sta" for e
  proof -
    note q = hit_quiet [OF c m a k]
    have "svgo (compressSvg_catch e ?sta) = onMessage m (svgo st)"
      "awaiting (compressSvg_catch e ?sta) = filter (\<lambda>p. fst p \<noteq> k) (awaiting st)"
      by simp_all
    from q(1,2) [OF this] q(4) [OF this p] show ?thesis
      by (simp add: compressSvg_catch_calls)
  qed
  show ?thesis
  proof (cases "process_result (message_outcome m)")
    case (Inl e)
    then have "continue env r (Pass1 j s) (message_outcome m) ?sta = compressSvg_catch e ?sta"
      by simp
    from caught [OF this] Inl show ?thesis by simp
  next
    case (Inr f0)
    show ?thesis
    proof (cases "cleans s")
      case False
      with Inr have k: "continue env r (Pass1 j s) (message_outcome m) ?sta
                          = compressSvg_finish s f0 ?sta"
        by (simp add: compressSvg_pass1_def)
      note q = hit_quiet [OF c m a k]
      have "svgo (compressSvg_finish s f0 ?sta) = onMessage m (svgo st)"
        "awaiting (compressSvg_finish s f0 ?sta) = filter (\<lambda>p. fst p \<noteq> k) (awaiting st)"
        by simp_all
      from q(1,2) [OF this] q(4) [OF this p] compressSvg_finish_shows [of f0 ?sta s]
      have "requested env (Message m r) st = [] \<and> suspended ?st' = [] \<and>
            cache ?st' = snd (add (fingerprint s) f0 (cache st)) \<and>
            UpdateForFile (Some f0) (inputItem st) (truthy (options s ''gzip'')) \<in> set (ui ?st')"
        by (simp add: compressSvg_finish_cache)
      with Inr False show ?thesis by simp
    next
      case True
      show ?thesis
      proof (cases "cleanup env s (svg_text f0)")
        case (Inl e)
        with Inr True
        have "continue env r (Pass1 j s) (message_outcome m) ?sta = compressSvg_catch e ?sta"
          by (simp add: compressSvg_pass1_def)
        from caught [OF this] Inr True Inl show ?thesis by simp
      next
        case (Inr t2)
        let ?st1 = "?sta\<lparr>svgo := snd (process t2 s (onMessage m (svgo st))),
                          awaiting := filter (\<lambda>p. fst p \<noteq> k) (awaiting st)
                            @ [(fst (process t2 s (onMessage m (svgo st))), Pass2 j s)]\<rparr>"
        from \<open>process_result (message_outcome m) = Inr f0\<close> True Inr
        have k: "continue env r (Pass1 j s) (message_outcome m) ?sta = ?st1"
          by (simp add: compressSvg_pass1_def split: prod.splits)
        have "svgo ?st1 = snd (process t2 s (onMessage m (svgo st)))"
          "awaiting ?st1 = filter (\<lambda>p. fst p \<noteq> k) (awaiting st)
                             @ [(fst (process t2 s (onMessage m (svgo st))), Pass2 j s)]"
          by simp_all
        from hit_process(1-3) [OF c m a p k this]
        have "requested env (Message m r) st = [(s, t2)] \<and> suspended ?st' = [Pass2 j s] \<and>
              cache ?st' = cache st"
          by (simp add: suspended_def)
        with \<open>process_result (message_outcome m) = Inr f0\<close> True Inr show ?thesis by simp
      qed
    qed
  qed
qed

text \<open>The answer to the second pass of a cycle.\<close>

lemma answer_second:
  assumes c: "consistent st" and m: "msg_id m = Some k" and a: "(k, Pass2 j s) \<in> set (awaiting st)"
  shows "requested env (Message m r) st = [] \<and> suspended (task env (Message m r) st) = [] \<and>
         (case process_result (message_outcome m) of
            Inl e \<Rightarrow>
              cache (task env (Message m r) st) = cache st \<and>
              ui (task env (Message m r) st)
                = ui st @ (if err_name e = ''AbortError'' then [Done]
                           else [HandleError (''Minifying error: '' @ err_message e), Done])
          | Inr resultFile \<Rightarrow>
              cache (task env (Message m r) st) = snd (add (fingerprint s) resultFile (cache st)) \<and>
              UpdateForFile (Some resultFile) (inputItem st) (truthy (options s ''gzip''))
                \<in> set (ui (task env (Message m r) st)))"
proof -
  let ?sta = "st\<lparr>svgo := onMessage m (svgo st),
                  awaiting := filter (\<lambda>p. fst p \<noteq> k) (awaiting st)\<rparr>"
  let ?st' = "task env (Message m r) st"
  have p: "is_pass (Pass2 j s)" by simp
  show ?thesis
  proof (cases "process_result (message_outcome m)")
    case (Inl e)
    then have k: "continue env r (Pass2 j s) (message_outcome m) ?sta = compressSvg_catch e ?sta"
      by simp
    note q = hit_quiet [OF c m a k]
    have "svgo (compressSvg_catch e ?sta) = onMessage m (svgo st)"
      "awaiting (compressSvg_catch e ?sta) = filter (\<lambda>p. fst p \<noteq> k) (awaiting st)"
      by simp_all
    from q(1,2) [OF this] q(4) [OF this p] Inl show ?thesis
      by (simp add: compressSvg_catch_calls)
  next
    case (Inr f)
    then have k: "continue env r (Pass2 j s) (message_outcome m) ?sta = compressSvg_finish s f ?sta"
      by simp
    note q = hit_quiet [OF c m a k]
    have "svgo (compressSvg_finish s f ?sta) = onMessage m (svgo st)"
      "awaiting (compressSvg_finish s f ?sta) = filter (\<lambda>p. fst p \<noteq> k) (awaiting st)"
      by simp_all
    from q(1,2) [OF this] q(4) [OF this p] compressSvg_finish_shows [of f ?sta s] Inr
    show ?thesis
      by (simp add: compressSvg_finish_cache)
  qed
qed

subsection \<open>The log only grows\<close>

lemma continues_extends:
  assumes d: "distinct (pending (svgo st))" and c: "continues st st'"
  shows "\<exists>new. trace (svgo st') = trace (svgo st) @ new"
proof -
  from c consider
      (same) "svgo st' = svgo st"
    | (aborted) "svgo st' = abort (svgo st)"
    | (processed) t s where "svgo st' = snd (process t s (svgo st))"
    unfolding continues_def by blast
  then show ?thesis
  proof cases
    case same
    then show ?thesis by simp
  next
    case aborted
    with abort_shape [OF d] show ?thesis by auto
  next
    case processed
    with process_shape [OF d, of t s] show ?thesis by auto
  qed
qed

lemma task_extends:
  assumes c: "consistent st"
  shows "\<exists>new. trace (svgo (task env ev st)) = trace (svgo st) @ new"
proof (cases ev)
  case (SettingsChange s r)
  from c have d: "distinct (pending (svgo st))" by (simp add: consistent_def)
  note k = onSettingsChange_continues [OF d, of env s r]
  from after_continuation [OF c k, of env r] continues_extends [OF d k]
  show ?thesis
    by (simp add: SettingsChange task_SettingsChange [OF c])
next
  case (InputChange d s)
  with onInputChange_fields(8) [of d s st] show ?thesis
    by (auto simp: task_InputChange)
next
  case (Message m r)
  show ?thesis
  proof (cases "\<exists>k. msg_id m = Some k \<and> k \<noteq> 0 \<and> k \<in> set (pending (svgo st))")
    case False
    with onMessage_miss [OF False] show ?thesis
      by (auto simp: Message task_Message_miss)
  next
    case True
    then obtain k where k: "msg_id m = Some k" "k \<noteq> 0" "k \<in> set (pending (svgo st))"
      by blast
    let ?sta = "st\<lparr>svgo := onMessage m (svgo st),
                    awaiting := filter (\<lambda>p. fst p \<noteq> k) (awaiting st)\<rparr>"
    have ca: "consistent ?sta" by (rule consistent_after_message [OF c k])
    from onMessage_hit [OF k] obtain e where
      h: "trace (onMessage m (svgo st)) = trace (svgo st) @ [e]"
        "length (trace (svgo ?sta)) = Suc (length (trace (svgo st)))"
      by auto
    show ?thesis
    proof (cases "map_of (awaiting st) k")
      case None
      with h show ?thesis
        by (auto simp: Message task_Message_unawaited [OF k None])
    next
      case (Some a)
      then have "(k, a) \<in> set (awaiting st)" by (rule map_of_SomeD)
      with c have j: "is_pass a \<longrightarrow> thisJobId a = latestCompressJobId ?sta"
        by (auto simp: consistent_def)
      from ca have d: "distinct (pending (svgo ?sta))" by (simp add: consistent_def)
      have t: "task env ev st
                 = microtasks env r (length (trace (svgo ?sta)))
                     (continue env r a (message_outcome m) ?sta)"
        unfolding Message task_Message_hit [OF k Some] h(2) ..
      note cc = continue_continues [OF d j, of env r "message_outcome m"]
      from after_continuation [OF ca cc, of env r]
      have "svgo (task env ev st) = svgo (continue env r a (message_outcome m) ?sta)"
        unfolding t by blast
      moreover from continues_extends [OF d cc] obtain new where
        "trace (svgo (continue env r a (message_outcome m) ?sta)) = trace (svgo ?sta) @ new"
        by blast
      ultimately have "trace (svgo (task env ev st)) = trace (svgo st) @ ([e] @ new)"
        by (simp add: h(1))
      then show ?thesis by blast
    qed
  qed
qed

lemma requested_passes:
  assumes c: "consistent st" and n: "n \<le> length (trace (svgo st))"
  shows "passes (drop n (trace (svgo (task env ev st))))
           = passes (drop n (trace (svgo st))) @ requested env ev st"
proof -
  from task_extends [OF c, of env ev] obtain new where
    new: "trace (svgo (task env ev st)) = trace (svgo st) @ new"
    by blast
  from n show ?thesis
    by (simp add: new requested_def)
qed

lemma task_length:
  assumes c: "consistent st"
  shows "length (trace (svgo st)) \<le> length (trace (svgo (task env ev st)))"
  using task_extends [OF c, of env ev] by auto

subsection \<open>The tasks that start no cycle\<close>

lemma suspended_append_Load [simp]:
  "awaiting st' = awaiting st @ [(k, Load d s)] \<Longrightarrow> suspended st' = suspended st"
  by (simp add: suspended_def)

lemma suspended_member:
  "(k, a) \<in> set (awaiting st) \<Longrightarrow> is_pass a \<Longrightarrow> a \<in> set (suspended st)"
  by (force simp: suspended_def)

text \<open>
  A task that starts no cycle requests no pass, unless it answers the first pass of the
  suspended cycle and a clean-up setting is active: then it requests one pass, and the
  cycle awaits its second pass.
\<close>

lemma step_other:
  assumes c: "consistent st" and n: "calls_compressSvg ev st = None"
  shows "requested env ev st = [] \<and> set (suspended (task env ev st)) \<subseteq> set (suspended st) \<or>
         (\<exists>j s t. Pass1 j s \<in> set (suspended st) \<and> cleans s \<and>
                  requested env ev st = [(s, t)] \<and> suspended (task env ev st) = [Pass2 j s])"
proof (cases ev)
  case (SettingsChange s r)
  with n show ?thesis by simp
next
  case (InputChange d s)
  from onInputChange_fields(8) [of d s st] obtain new where
    new: "trace (svgo (task env ev st)) = trace (svgo st) @ new" "passes new = []"
    by (auto simp: InputChange task_InputChange)
  from requested_new [OF new(1)] new(2) have "requested env ev st = []" by simp
  moreover have "suspended (task env ev st) = suspended st"
    by (simp add: InputChange task_InputChange onInputChange_fields(3))
  ultimately show ?thesis by simp
next
  case (Message m r)
  show ?thesis
  proof (cases "\<exists>k. msg_id m = Some k \<and> k \<noteq> 0 \<and> k \<in> set (pending (svgo st))")
    case False
    from onMessage_miss [OF False] obtain e where
      e: "trace (svgo (task env ev st)) = trace (svgo st) @ [e]" "passes [e] = []"
      by (auto simp: Message task_Message_miss [OF False])
    from requested_new [OF e(1)] e(2) have "requested env ev st = []" by simp
    moreover have "suspended (task env ev st) = suspended st"
      by (simp add: Message task_Message_miss [OF False] suspended_def)
    ultimately show ?thesis by simp
  next
    case True
    then obtain k where k: "msg_id m = Some k" "k \<noteq> 0" "k \<in> set (pending (svgo st))"
      by blast
    show ?thesis
    proof (cases "map_of (awaiting st) k")
      case None
      from onMessage_hit [OF k] obtain e where
        e: "trace (svgo (task env ev st)) = trace (svgo st) @ [e]" "passes [e] = []"
        by (auto simp: Message task_Message_unawaited [OF k None])
      from requested_new [OF e(1)] e(2) have "requested env ev st = []" by simp
      moreover have "suspended (task env ev st) = suspended st"
        by (simp add: Message task_Message_unawaited [OF k None] suspended_def)
      ultimately show ?thesis by simp
    next
      case (Some a)
      then have a: "(k, a) \<in> set (awaiting st)" by (rule map_of_SomeD)
      let ?sta = "st\<lparr>svgo := onMessage m (svgo st),
                      awaiting := filter (\<lambda>p. fst p \<noteq> k) (awaiting st)\<rparr>"
      show ?thesis
      proof (cases a)
        case (Pass1 j s)
        note af = answer_first [OF c k(1) a [unfolded Pass1], of env r]
        from a Pass1 have mem: "Pass1 j s \<in> set (suspended st)"
          by (auto intro: suspended_member)
        show ?thesis
        proof (cases "process_result (message_outcome m)")
          case (Inl e)
          with af show ?thesis by (simp add: Message)
        next
          case (Inr f0)
          show ?thesis
          proof (cases "cleans s")
            case False
            with af Inr show ?thesis by (simp add: Message)
          next
            case True
            show ?thesis
            proof (cases "cleanup env s (svg_text f0)")
              case (Inl e)
              with af Inr True show ?thesis by (simp add: Message)
            next
              case (Inr t2)
              with af \<open>process_result (message_outcome m) = Inr f0\<close> True
              have "requested env ev st = [(s, t2)]" "suspended (task env ev st) = [Pass2 j s]"
                by (simp_all add: Message)
              with mem True show ?thesis by blast
            qed
          qed
        qed
      next
        case (Pass2 j s)
        from answer_second [OF c k(1) a [unfolded Pass2], of env r] show ?thesis
          by (simp add: Message)
      next
        case (Load d s)
        from n k Some Load obtain e where
          w: "wrapOriginal_result d (message_outcome m) = Inl e"
          by (auto simp: Message split: sum.splits)
        then have kk: "continue env r a (message_outcome m) ?sta = onInputChange_catch e ?sta"
          by (simp add: Load)
        have "svgo (onInputChange_catch e ?sta) = onMessage m (svgo st)"
          "awaiting (onInputChange_catch e ?sta) = filter (\<lambda>p. fst p \<noteq> k) (awaiting st)"
          by simp_all
        from hit_quiet(2,3) [OF c k(1) a kk this] show ?thesis
          by (simp add: Message)
      qed
    qed
  qed
qed

text \<open>
  A task that starts a cycle requests at most the first pass of that cycle, and rejects
  the request of the cycle that was suspended.
\<close>

lemma step_start:
  assumes c: "consistent st" and s: "calls_compressSvg ev st = Some s"
  shows "requested env ev st
           = first_request env s (inputItem (task env ev st)) (cache (task env ev st))"
    and "suspended (task env ev st) = map (\<lambda>p. Pass1 (random_of ev) s) (requested env ev st)"
    and "length (requested env ev st) \<le> 1"
    and "\<forall>p\<in>set (requested env ev st). fst p = s"
    and "\<forall>k a. (k, a) \<in> set (awaiting st) \<and> is_pass a
           \<longrightarrow> Reject k AbortErr
                 \<in> set (drop (length (trace (svgo st))) (trace (svgo (task env ev st))))"
proof -
  note st = start_task [OF c s, of env]
  from st(1) obtain new where
    new: "trace (svgo (task env ev st)) = trace (svgo st) @ new"
      "passes new = first_request env s (inputItem (task env ev st)) (cache (task env ev st))"
      "\<forall>k a. (k, a) \<in> set (awaiting st) \<and> is_pass a \<longrightarrow> Reject k AbortErr \<in> set new"
    by blast
  from new(3) show "\<forall>k a. (k, a) \<in> set (awaiting st) \<and> is_pass a
           \<longrightarrow> Reject k AbortErr
                 \<in> set (drop (length (trace (svgo st))) (trace (svgo (task env ev st))))"
    by (simp add: new(1))
  from requested_new [OF new(1)] new(2)
  show r: "requested env ev st
             = first_request env s (inputItem (task env ev st)) (cache (task env ev st))"
    by simp
  show "suspended (task env ev st) = map (\<lambda>p. Pass1 (random_of ev) s) (requested env ev st)"
    unfolding r using first_request_cases [of env s "inputItem (task env ev st)" "cache (task env ev st)"]
    by (auto simp: suspended_def st(2))
  from first_request_cases [of env s "inputItem (task env ev st)" "cache (task env ev st)"]
  show "length (requested env ev st) \<le> 1" "\<forall>p\<in>set (requested env ev st). fst p = s"
    unfolding r by auto
qed

text \<open>
  The passes requested since a point \<open>n\<close> of the log, while no cycle starts: the cycle
  with job id \<open>j\<close> and settings \<open>s\<close> is the only one that can be suspended.
\<close>

lemma cycle_bound:
  assumes "consistent st" and "n \<le> length (trace (svgo st))" and "uninterrupted env evs st"
    and "set (suspended st) \<subseteq> {Pass1 j s, Pass2 j s}"
    and "length (passes (drop n (trace (svgo st)))) \<le> (if cleans s then 2 else 1)"
    and "Pass1 j s \<in> set (suspended st) \<longrightarrow> length (passes (drop n (trace (svgo st)))) \<le> 1"
    and "\<forall>p\<in>set (passes (drop n (trace (svgo st)))). fst p = s"
  shows "length (passes (drop n (trace (svgo (fold (task env) evs st)))))
           \<le> (if cleans s then 2 else 1) \<and>
         (\<forall>p\<in>set (passes (drop n (trace (svgo (fold (task env) evs st))))). fst p = s)"
  using assms
proof (induction evs arbitrary: st)
  case Nil
  then show ?case by simp
next
  case (Cons ev evs)
  let ?st' = "task env ev st"
  from Cons.prems(3) have no: "calls_compressSvg ev st = None" and u: "uninterrupted env evs ?st'"
    by simp_all
  have c': "consistent ?st'" by (rule task_consistent [OF Cons.prems(1)])
  from task_length [OF Cons.prems(1), of env ev] Cons.prems(2)
  have n': "n \<le> length (trace (svgo ?st'))" by simp
  note ps = requested_passes [OF Cons.prems(1,2), of env ev]
  from step_other [OF Cons.prems(1) no, of env]
  have "set (suspended ?st') \<subseteq> {Pass1 j s, Pass2 j s} \<and>
        length (passes (drop n (trace (svgo ?st')))) \<le> (if cleans s then 2 else 1) \<and>
        (Pass1 j s \<in> set (suspended ?st') \<longrightarrow> length (passes (drop n (trace (svgo ?st')))) \<le> 1) \<and>
        (\<forall>p\<in>set (passes (drop n (trace (svgo ?st')))). fst p = s)"
  proof (elim disjE conjE exE)
    assume "requested env ev st = []" "set (suspended ?st') \<subseteq> set (suspended st)"
    with Cons.prems(4-7) show ?thesis
      unfolding ps by auto
  next
    fix j' s' t
    assume b: "Pass1 j' s' \<in> set (suspended st)" "cleans s'" "requested env ev st = [(s', t)]"
      "suspended ?st' = [Pass2 j' s']"
    from b(1) Cons.prems(4) have same: "j' = j" "s' = s" by auto
    from b(1) Cons.prems(6) same have "length (passes (drop n (trace (svgo st)))) \<le> 1"
      by simp
    with b(2-4) Cons.prems(7) same show ?thesis
      unfolding ps by simp
  qed
  then have "set (suspended ?st') \<subseteq> {Pass1 j s, Pass2 j s}"
    "length (passes (drop n (trace (svgo ?st')))) \<le> (if cleans s then 2 else 1)"
    "Pass1 j s \<in> set (suspended ?st') \<longrightarrow> length (passes (drop n (trace (svgo ?st')))) \<le> 1"
    "\<forall>p\<in>set (passes (drop n (trace (svgo ?st')))). fst p = s"
    by blast+
  from Cons.IH [OF c' n' u this] show ?case by simp
qed

lemma cycle_passes:
  assumes c: "consistent st" and s: "calls_compressSvg ev st = Some s"
    and u: "uninterrupted env evs (task env ev st)"
  shows "length (passes (drop (length (trace (svgo st)))
                   (trace (svgo (fold (task env) evs (task env ev st))))))
           \<le> (if cleans s then 2 else 1) \<and>
         (\<forall>p\<in>set (passes (drop (length (trace (svgo st)))
                      (trace (svgo (fold (task env) evs (task env ev st)))))). fst p = s)"
proof -
  let ?st' = "task env ev st"
  let ?n = "length (trace (svgo st))"
  note ss = step_start [OF c s, of env]
  have r: "passes (drop ?n (trace (svgo ?st'))) = requested env ev st"
    by (simp add: requested_def)
  have c': "consistent ?st'" by (rule task_consistent [OF c])
  have n: "?n \<le> length (trace (svgo ?st'))" by (rule task_length [OF c])
  have 1: "set (suspended ?st') \<subseteq> {Pass1 (random_of ev) s, Pass2 (random_of ev) s}"
    unfolding ss(2) by auto
  have 2: "length (passes (drop ?n (trace (svgo ?st')))) \<le> (if cleans s then 2 else 1)"
    unfolding r using ss(3) by simp
  have 3: "Pass1 (random_of ev) s \<in> set (suspended ?st')
             \<longrightarrow> length (passes (drop ?n (trace (svgo ?st')))) \<le> 1"
    unfolding r using ss(3) by simp
  have 4: "\<forall>p\<in>set (passes (drop ?n (trace (svgo ?st')))). fst p = s"
    unfolding r by (rule ss(4))
  from cycle_bound [OF c' n u 1 2 3 4] show ?thesis .
qed

text \<open>The first pass of a cycle that a settings change or a load starts.\<close>

lemma first_by_settings:
  assumes c: "consistent st" and input: "inputItem st = Some input"
    and orig: "\<not> truthy (options s ''original'')" and miss: "match (fingerprint s) (cache st) = None"
    and t1: "cleanup env s (svg_text input) = Inr t1"
  shows "requested env (SettingsChange s r) st = [(s, t1)] \<and>
         suspended (task env (SettingsChange s r) st) = [Pass1 r s]"
proof -
  have s: "calls_compressSvg (SettingsChange s r) st = Some s" by simp
  from start_cache [OF c s, of env]
  have "cache (task env (SettingsChange s r) st) = cache st"
    "inputItem (task env (SettingsChange s r) st) = inputItem st"
    by simp_all
  with step_start(1,2) [OF c s, of env] input orig miss t1 show ?thesis
    by (simp add: first_request_def)
qed

lemma first_by_load:
  assumes c: "consistent st" and m: "msg_id m = Some l" and a: "(l, Load d s) \<in> set (awaiting st)"
    and w: "wrapOriginal_result d (message_outcome m) = Inr input"
    and orig: "\<not> truthy (options s ''original'')"
    and t1: "cleanup env s (svg_text input) = Inr t1"
  shows "requested env (Message m r) st = [(s, t1)] \<and>
         suspended (task env (Message m r) st) = [Pass1 r s]"
proof -
  note key = awaited_key [OF c a]
  have s: "calls_compressSvg (Message m r) st = Some s"
    by (simp add: m key w)
  from start_cache [OF c s, of env] m key(1) w
  have "cache (task env (Message m r) st) = purge (cache st)"
    "inputItem (task env (Message m r) st) = Some input"
    by blast+
  with step_start(1,2) [OF c s, of env] orig t1 show ?thesis
    by (simp add: first_request_def)
qed

text \<open>
  Claim C6, as amended. In every state of a run, between two tasks:

  \<^item> a settings change that is neither a show-original short-circuit nor a cache hit, on a
    loaded input whose clean-up returns, requests one pass, on the clean-up of the
    input's text, and the cycle awaits it; so does the load of a new input (the cache
    is purged, so there is no hit);

  \<^item> when the first pass is answered with a result: without a clean-up setting the cycle
    shows and caches that result and ends; with a clean-up setting it requests one more
    pass, on the clean-up of the first result's text, and awaits it (or ends with the
    error, if the clean-up throws); when the first pass is answered with an error, the
    cycle reports it and ends, having requested one pass;

  \<^item> when the second pass is answered, the cycle requests nothing: it shows and caches
    the result, or reports the error, and ends;

  \<^item> a task that starts a cycle rejects the request of the cycle that was suspended
    with the AbortError; that cycle is suspended no more, and the task requests at most
    one pass, the first of the new cycle;

  \<^item> from the task that starts a cycle until the next one that does, whatever messages
    and loads arrive, at most two passes are requested, at most one without a clean-up
    setting, all with the settings of the cycle.
\<close>

theorem two_pass_post_processing:
  assumes r: "reachable env st"
  shows "(\<forall>s r input t1.
            inputItem st = Some input \<and> \<not> truthy (options s ''original'') \<and>
            match (fingerprint s) (cache st) = None \<and> cleanup env s (svg_text input) = Inr t1
            \<longrightarrow> requested env (SettingsChange s r) st = [(s, t1)] \<and>
                suspended (task env (SettingsChange s r) st) = [Pass1 r s]) \<and>
         (\<forall>m r l d s input t1.
            msg_id m = Some l \<and> (l, Load d s) \<in> set (awaiting st) \<and>
            wrapOriginal_result d (message_outcome m) = Inr input \<and>
            \<not> truthy (options s ''original'') \<and> cleanup env s (svg_text input) = Inr t1
            \<longrightarrow> requested env (Message m r) st = [(s, t1)] \<and>
                suspended (task env (Message m r) st) = [Pass1 r s]) \<and>
         (\<forall>m r k j s.
            msg_id m = Some k \<and> (k, Pass1 j s) \<in> set (awaiting st)
            \<longrightarrow> (case process_result (message_outcome m) of
                   Inl e \<Rightarrow>
                     requested env (Message m r) st = [] \<and>
                     suspended (task env (Message m r) st) = [] \<and>
                     cache (task env (Message m r) st) = cache st \<and>
                     ui (task env (Message m r) st)
                       = ui st @ (if err_name e = ''AbortError'' then [Done]
                                  else [HandleError (''Minifying error: '' @ err_message e), Done])
                 | Inr resultFile0 \<Rightarrow>
                     if cleans s then
                       (case cleanup env s (svg_text resultFile0) of
                          Inl e \<Rightarrow>
                            requested env (Message m r) st = [] \<and>
                            suspended (task env (Message m r) st) = [] \<and>
                            cache (task env (Message m r) st) = cache st \<and>
                            ui (task env (Message m r) st)
                              = ui st @ (if err_name e = ''AbortError'' then [Done]
                                         else [HandleError (''Minifying error: '' @ err_message e),
                                               Done])
                        | Inr svgText \<Rightarrow>
                            requested env (Message m r) st = [(s, svgText)] \<and>
                            suspended (task env (Message m r) st) = [Pass2 j s] \<and>
                            cache (task env (Message m r) st) = cache st)
                     else
                       requested env (Message m r) st = [] \<and>
                       suspended (task env (Message m r) st) = [] \<and>
                       cache (task env (Message m r) st)
                         = snd (add (fingerprint s) resultFile0 (cache st)) \<and>
                       UpdateForFile (Some resultFile0) (inputItem st) (truthy (options s ''gzip''))
                         \<in> set (ui (task env (Message m r) st)))) \<and>
         (\<forall>m r k j s.
            msg_id m = Some k \<and> (k, Pass2 j s) \<in> set (awaiting st)
            \<longrightarrow> requested env (Message m r) st = [] \<and>
                suspended (task env (Message m r) st) = [] \<and>
                (case process_result (message_outcome m) of
                   Inl e \<Rightarrow>
                     cache (task env (Message m r) st) = cache st \<and>
                     ui (task env (Message m r) st)
                       = ui st @ (if err_name e = ''AbortError'' then [Done]
                                  else [HandleError (''Minifying error: '' @ err_message e), Done])
                 | Inr resultFile \<Rightarrow>
                     cache (task env (Message m r) st)
                       = snd (add (fingerprint s) resultFile (cache st)) \<and>
                     UpdateForFile (Some resultFile) (inputItem st) (truthy (options s ''gzip''))
                       \<in> set (ui (task env (Message m r) st)))) \<and>
         (\<forall>ev s.
            calls_compressSvg ev st = Some s
            \<longrightarrow> length (requested env ev st) \<le> 1 \<and>
                (\<forall>p\<in>set (requested env ev st). fst p = s) \<and>
                suspended (task env ev st)
                  = map (\<lambda>p. Pass1 (random_of ev) s) (requested env ev st) \<and>
                (\<forall>k a. (k, a) \<in> set (awaiting st) \<and> is_pass a
                   \<longrightarrow> Reject k AbortErr
                         \<in> set (drop (length (trace (svgo st)))
                                 (trace (svgo (task env ev st)))))) \<and>
         (\<forall>ev evs s.
            calls_compressSvg ev st = Some s \<and> uninterrupted env evs (task env ev st)
            \<longrightarrow> length (passes (drop (length (trace (svgo st)))
                          (trace (svgo (fold (task env) evs (task env ev st))))))
                  \<le> (if cleans s then 2 else 1) \<and>
                (\<forall>p\<in>set (passes (drop (length (trace (svgo st)))
                             (trace (svgo (fold (task env) evs (task env ev st)))))).
                   fst p = s))"
proof -
  from r have c: "consistent st" by (rule reachable_consistent)
  have A: "\<forall>s r input t1.
            inputItem st = Some input \<and> \<not> truthy (options s ''original'') \<and>
            match (fingerprint s) (cache st) = None \<and> cleanup env s (svg_text input) = Inr t1
            \<longrightarrow> requested env (SettingsChange s r) st = [(s, t1)] \<and>
                suspended (task env (SettingsChange s r) st) = [Pass1 r s]"
    using first_by_settings [OF c] by blast
  have B: "\<forall>m r l d s input t1.
            msg_id m = Some l \<and> (l, Load d s) \<in> set (awaiting st) \<and>
            wrapOriginal_result d (message_outcome m) = Inr input \<and>
            \<not> truthy (options s ''original'') \<and> cleanup env s (svg_text input) = Inr t1
            \<longrightarrow> requested env (Message m r) st = [(s, t1)] \<and>
                suspended (task env (Message m r) st) = [Pass1 r s]"
    using first_by_load [OF c] by blast
  have C: "\<forall>m r k j s.
       msg_id m = Some k \<and> (k, Pass1 j s) \<in> set (awaiting st)
       \<longrightarrow> (case process_result (message_outcome m) of
              Inl e \<Rightarrow>
                requested env (Message m r) st = [] \<and>
                suspended (task env (Message m r) st) = [] \<and>
                cache (task env (Message m r) st) = cache st \<and>
                ui (task env (Message m r) st)
                  = ui st @ (if err_name e = ''AbortError'' then [Done]
                             else [HandleError (''Minifying error: '' @ err_message e), Done])
            | Inr resultFile0 \<Rightarrow>
                if cleans s then
                  (case cleanup env s (svg_text resultFile0) of
                     Inl e \<Rightarrow>
                       requested env (Message m r) st = [] \<and>
                       suspended (task env (Message m r) st) = [] \<and>
                       cache (task env (Message m r) st) = cache st \<and>
                       ui (task env (Message m r) st)
                         = ui st @ (if err_name e = ''AbortError'' then [Done]
                                    else [HandleError (''Minifying error: '' @ err_message e),
                                          Done])
                   | Inr svgText \<Rightarrow>
                       requested env (Message m r) st = [(s, svgText)] \<and>
                       suspended (task env (Message m r) st) = [Pass2 j s] \<and>
                       cache (task env (Message m r) st) = cache st)
                else
                  requested env (Message m r) st = [] \<and>
                  suspended (task env (Message m r) st) = [] \<and>
                  cache (task env (Message m r) st)
                    = snd (add (fingerprint s) resultFile0 (cache st)) \<and>
                  UpdateForFile (Some resultFile0) (inputItem st) (truthy (options s ''gzip''))
                    \<in> set (ui (task env (Message m r) st)))"
    by (intro allI impI, elim conjE) (rule answer_first [OF c])
  have D: "\<forall>m r k j s.
       msg_id m = Some k \<and> (k, Pass2 j s) \<in> set (awaiting st)
       \<longrightarrow> requested env (Message m r) st = [] \<and>
           suspended (task env (Message m r) st) = [] \<and>
           (case process_result (message_outcome m) of
              Inl e \<Rightarrow>
                cache (task env (Message m r) st) = cache st \<and>
                ui (task env (Message m r) st)
                  = ui st @ (if err_name e = ''AbortError'' then [Done]
                             else [HandleError (''Minifying error: '' @ err_message e), Done])
            | Inr resultFile \<Rightarrow>
                cache (task env (Message m r) st)
                  = snd (add (fingerprint s) resultFile (cache st)) \<and>
                UpdateForFile (Some resultFile) (inputItem st) (truthy (options s ''gzip''))
                  \<in> set (ui (task env (Message m r) st)))"
    by (intro allI impI, elim conjE) (rule answer_second [OF c])
  have E: "\<forall>ev s.
            calls_compressSvg ev st = Some s
            \<longrightarrow> length (requested env ev st) \<le> 1 \<and>
                (\<forall>p\<in>set (requested env ev st). fst p = s) \<and>
                suspended (task env ev st)
                  = map (\<lambda>p. Pass1 (random_of ev) s) (requested env ev st) \<and>
                (\<forall>k a. (k, a) \<in> set (awaiting st) \<and> is_pass a
                   \<longrightarrow> Reject k AbortErr
                         \<in> set (drop (length (trace (svgo st)))
                                 (trace (svgo (task env ev st)))))"
    using step_start(2-5) [OF c] by blast
  have F: "\<forall>ev evs s.
            calls_compressSvg ev st = Some s \<and> uninterrupted env evs (task env ev st)
            \<longrightarrow> length (passes (drop (length (trace (svgo st)))
                          (trace (svgo (fold (task env) evs (task env ev st))))))
                  \<le> (if cleans s then 2 else 1) \<and>
                (\<forall>p\<in>set (passes (drop (length (trace (svgo st)))
                             (trace (svgo (fold (task env) evs (task env ev st)))))).
                   fst p = s)"
    using cycle_passes [OF c] by blast
  show ?thesis
    by (intro conjI) (rule A B C D E F)+
qed

subsection \<open>Concrete runs\<close>

lemmas run_defs =
  task_def microtasks_def resume_def onSettingsChange_def onInputChange_def
  onInputChange_loaded_def onInputChange_catch_def compressSvg_call_def compressSvg_resume_def
  compressSvg_try_def compressSvg_pass1_def compressSvg_finish_def compressSvg_catch_def
  call_ui_def cleanup_def cleans_def process_def process_result_def wrapOriginal_def
  wrapOriginal_result_def abort_def abortPending_def fulfillPending_def requestResponse_def
  startWorker_def emit_def onMessage_def error_of_def message_outcome_def truthy_def match_def
  add_def js_get_def js_set_def purge_def new_cache_def new_controller_def new_svgo_def
  new_SvgFile_def mark_dom_def plain_def cleaning_def answer_def failure_def
  Error_def AbortErr_def DOMException_def TypeError_def

lemma in_flight_state:
  "awaiting in_flight = [(2, Pass1 5 cleaning)]"
  "pending (svgo in_flight) = [2]"
  "inputItem in_flight = Some (new_SvgFile ''<svg/>'' 1 1)"
  "match (fingerprint plain) (cache in_flight) = None"
  "latestCompressJobId in_flight = 5"
  by (simp_all add: in_flight_def run_defs Let_def)

lemma in_flight_reachable: "reachable mark_dom in_flight"
  unfolding in_flight_def by (intro reachable.intros)

lemma reloading_state:
  "awaiting reloading = [(2, Pass1 5 cleaning), (3, Load ''<g/>'' plain)]"
  "pending (svgo reloading) = [2, 3]"
  by (simp_all add: reloading_def in_flight_def run_defs Let_def)

lemma reloading_reachable: "reachable mark_dom reloading"
  unfolding reloading_def by (intro reachable.intros in_flight_reachable)

lemma second_pass_state:
  "awaiting second_pass = [(3, Pass2 5 cleaning)]"
  "inputItem second_pass = Some (new_SvgFile ''<svg/>'' 1 1)"
  by (simp_all add: second_pass_def in_flight_def run_defs Let_def)

lemma second_pass_reachable: "reachable mark_dom second_pass"
  unfolding second_pass_def by (intro reachable.intros in_flight_reachable)


theorem two_pass_post_processing_witness:
  "reachable mark_dom in_flight \<and>
   inputItem in_flight = Some (new_SvgFile ''<svg/>'' 1 1) \<and>
   \<not> truthy (options plain ''original'') \<and> match (fingerprint plain) (cache in_flight) = None \<and>
   cleanup mark_dom plain (svg_text (new_SvgFile ''<svg/>'' 1 1)) = Inr ''<svg/>'' \<and>
   requested mark_dom (SettingsChange plain 6) in_flight = [(plain, ''<svg/>'')] \<and>
   suspended (task mark_dom (SettingsChange plain 6) in_flight) = [Pass1 6 plain] \<and>
   msg_id (answer 2 ''a'') = Some 2 \<and> (2, Pass1 5 cleaning) \<in> set (awaiting in_flight) \<and>
   cleans cleaning \<and>
   requested mark_dom (Message (answer 2 ''a'') 0) in_flight = [(cleaning, ''a!'')] \<and>
   suspended (task mark_dom (Message (answer 2 ''a'') 0) in_flight) = [Pass2 5 cleaning] \<and>
   requested mark_dom (Message (failure 2 ''bad'') 0) in_flight = [] \<and>
   suspended (task mark_dom (Message (failure 2 ''bad'') 0) in_flight) = [] \<and>
   reachable mark_dom reloading \<and> msg_id (answer 3 []) = Some 3 \<and>
   (3, Load ''<g/>'' plain) \<in> set (awaiting reloading) \<and>
   wrapOriginal_result ''<g/>'' (message_outcome (answer 3 [])) = Inr (new_SvgFile ''<g/>'' 1 1) \<and>
   cleanup mark_dom plain (svg_text (new_SvgFile ''<g/>'' 1 1)) = Inr ''<g/>'' \<and>
   requested mark_dom (Message (answer 3 []) 7) reloading = [(plain, ''<g/>'')] \<and>
   suspended (task mark_dom (Message (answer 3 []) 7) reloading) = [Pass1 7 plain] \<and>
   reachable mark_dom second_pass \<and> msg_id (answer 3 ''b'') = Some 3 \<and>
   (3, Pass2 5 cleaning) \<in> set (awaiting second_pass) \<and>
   requested mark_dom (Message (answer 3 ''b'') 0) second_pass = [] \<and>
   suspended (task mark_dom (Message (answer 3 ''b'') 0) second_pass) = [] \<and>
   UpdateForFile (Some (new_SvgFile ''b'' 1 1)) (Some (new_SvgFile ''<svg/>'' 1 1)) False
     \<in> set (ui (task mark_dom (Message (answer 3 ''b'') 0) second_pass)) \<and>
   calls_compressSvg (SettingsChange cleaning 6) in_flight = Some cleaning \<and>
   uninterrupted mark_dom [Message (answer 3 ''a'') 0, Message (answer 4 ''b'') 0]
     (task mark_dom (SettingsChange cleaning 6) in_flight) \<and>
   length (passes (drop (length (trace (svgo in_flight)))
             (trace (svgo (fold (task mark_dom) [Message (answer 3 ''a'') 0, Message (answer 4 ''b'') 0]
                (task mark_dom (SettingsChange cleaning 6) in_flight)))))) \<le> 2"
proof -
  have h: "\<not> truthy (options plain ''original'')"
    "cleanup mark_dom plain (svg_text (new_SvgFile ''<svg/>'' 1 1)) = Inr ''<svg/>''"
    "cleans cleaning"
    by (simp_all add: plain_def cleaning_def truthy_def cleanup_def cleans_def mark_dom_def
        new_SvgFile_def)
  have m: "msg_id (answer 2 ''a'') = Some 2" "msg_id (failure 2 ''bad'') = Some 2"
    "process_result (message_outcome (answer 2 ''a'')) = Inr (new_SvgFile ''a'' 1 1)"
    "process_result (message_outcome (failure 2 ''bad'')) = Inl (Error ''bad'')"
    "cleanup mark_dom cleaning (svg_text (new_SvgFile ''a'' 1 1)) = Inr ''a!''"
    by (simp_all add: answer_def failure_def message_outcome_def error_of_def process_result_def
        cleanup_def cleaning_def truthy_def mark_dom_def new_SvgFile_def)
  have a: "(2, Pass1 5 cleaning) \<in> set (awaiting in_flight)"
    by (simp add: in_flight_state)
  have s: "calls_compressSvg (SettingsChange cleaning 6) in_flight = Some cleaning" by simp
  have u: "uninterrupted mark_dom [Message (answer 3 ''a'') 0, Message (answer 4 ''b'') 0]
             (task mark_dom (SettingsChange cleaning 6) in_flight)"
    by (simp add: in_flight_def run_defs Let_def)
  note t = two_pass_post_processing [OF in_flight_reachable]
  from t [THEN conjunct1, rule_format, of "new_SvgFile ''<svg/>'' 1 1" plain "''<svg/>''" 6]
    in_flight_state(3,4) h(1,2)
  have A: "requested mark_dom (SettingsChange plain 6) in_flight = [(plain, ''<svg/>'')] \<and>
           suspended (task mark_dom (SettingsChange plain 6) in_flight) = [Pass1 6 plain]"
    by simp
  from t [THEN conjunct2, THEN conjunct2, THEN conjunct1, rule_format,
      of "answer 2 ''a''" 2 5 cleaning 0] m a h(3)
  have C1: "requested mark_dom (Message (answer 2 ''a'') 0) in_flight = [(cleaning, ''a!'')] \<and>
            suspended (task mark_dom (Message (answer 2 ''a'') 0) in_flight) = [Pass2 5 cleaning]"
    by simp
  from t [THEN conjunct2, THEN conjunct2, THEN conjunct1, rule_format,
      of "failure 2 ''bad''" 2 5 cleaning 0] m a
  have C2: "requested mark_dom (Message (failure 2 ''bad'') 0) in_flight = [] \<and>
            suspended (task mark_dom (Message (failure 2 ''bad'') 0) in_flight) = []"
    by simp
  from t [THEN conjunct2, THEN conjunct2, THEN conjunct2, THEN conjunct2, THEN conjunct2,
      rule_format, of "SettingsChange cleaning 6" cleaning
        "[Message (answer 3 ''a'') 0, Message (answer 4 ''b'') 0]"] s u h(3)
  have F: "length (passes (drop (length (trace (svgo in_flight)))
             (trace (svgo (fold (task mark_dom) [Message (answer 3 ''a'') 0, Message (answer 4 ''b'') 0]
                (task mark_dom (SettingsChange cleaning 6) in_flight)))))) \<le> 2"
    by simp
  have l: "msg_id (answer 3 []) = Some 3" "(3, Load ''<g/>'' plain) \<in> set (awaiting reloading)"
    "wrapOriginal_result ''<g/>'' (message_outcome (answer 3 [])) = Inr (new_SvgFile ''<g/>'' 1 1)"
    "cleanup mark_dom plain (svg_text (new_SvgFile ''<g/>'' 1 1)) = Inr ''<g/>''"
    by (simp_all add: reloading_state answer_def message_outcome_def error_of_def
        wrapOriginal_result_def cleanup_def plain_def truthy_def new_SvgFile_def)
  from two_pass_post_processing [OF reloading_reachable, THEN conjunct2, THEN conjunct1, rule_format,
      of "answer 3 []" 3 "''<g/>''" plain "new_SvgFile ''<g/>'' 1 1" "''<g/>''" 7] l h(1)
  have B: "requested mark_dom (Message (answer 3 []) 7) reloading = [(plain, ''<g/>'')] \<and>
           suspended (task mark_dom (Message (answer 3 []) 7) reloading) = [Pass1 7 plain]"
    by simp
  have n: "msg_id (answer 3 ''b'') = Some 3" "(3, Pass2 5 cleaning) \<in> set (awaiting second_pass)"
    "process_result (message_outcome (answer 3 ''b'')) = Inr (new_SvgFile ''b'' 1 1)"
    "\<not> truthy (options cleaning ''gzip'')"
    by (simp_all add: second_pass_state answer_def message_outcome_def error_of_def
        process_result_def cleaning_def truthy_def)
  from two_pass_post_processing [OF second_pass_reachable, THEN conjunct2, THEN conjunct2,
      THEN conjunct2, THEN conjunct1, rule_format, of "answer 3 ''b''" 3 5 cleaning 0] n
  have D: "requested mark_dom (Message (answer 3 ''b'') 0) second_pass = [] \<and>
           suspended (task mark_dom (Message (answer 3 ''b'') 0) second_pass) = [] \<and>
           UpdateForFile (Some (new_SvgFile ''b'' 1 1)) (Some (new_SvgFile ''<svg/>'' 1 1)) False
             \<in> set (ui (task mark_dom (Message (answer 3 ''b'') 0) second_pass))"
    by (simp add: second_pass_state)
  from in_flight_reachable reloading_reachable second_pass_reachable in_flight_state(3,4)
    h m(1) a s u l n(1,2) A B C1 C2 D F
  show ?thesis
    by simp
qed

text \<open>
  Claim C6 as stated fails: with a clean-up setting active, a cycle whose first pass is
  answered with an error ends after that one pass. In the state \<open>in_flight\<close> the cycle,
  under the settings \<open>cleaning\<close>, awaits its first pass, request 2, which was made on
  the clean-up of the input. The worker answers it with the error \<open>bad\<close>: the cycle
  reports the error and ends; the log holds one pass.
\<close>

theorem one_pass_when_first_pass_fails:
  "cleans cleaning \<and> \<not> truthy (options cleaning ''original'') \<and>
   awaiting in_flight = [(2, Pass1 5 cleaning)] \<and>
   map snd (passes (trace (svgo (task mark_dom (Message (failure 2 ''bad'') 0) in_flight))))
     = [''<svg/>!''] \<and>
   awaiting (task mark_dom (Message (failure 2 ''bad'') 0) in_flight) = [] \<and>
   ui (task mark_dom (Message (failure 2 ''bad'') 0) in_flight)
     = [ResetOutput, Working, HandleError ''Minifying error: bad'', Done]"
  by (simp add: in_flight_def run_defs Let_def)


end
